theory Spec2Isabelle
  imports Main "HOL-Library.Word"
begin

unbundle bit_operations_syntax

section \<open>Hash functions\<close>

text \<open>
  \<^verbatim>\<open>hash32shift\<close> of \<^verbatim>\<open>hashtable.h\<close>. The key is a \<^verbatim>\<open>uint32_t\<close>, so every
  operation is the one of \<^typ>\<open>32 word\<close>: \<open>+\<close> and \<open>*\<close> wrap, \<^verbatim>\<open><<\<close> is
  \<^const>\<open>push_bit\<close> (bits shifted out are lost), \<^verbatim>\<open>>>\<close> is the logical
  \<^const>\<open>drop_bit\<close>, \<^verbatim>\<open>~\<close> is \<open>NOT\<close>. Each assignment to \<^verbatim>\<open>key\<close> is one
  \<open>let\<close>.
\<close>

definition hash32shift :: "32 word \<Rightarrow> 32 word" where
  "hash32shift key0 =
     (let key1 = NOT key0 + push_bit 10 key0;
          key2 = key1 XOR drop_bit 7 key1;
          key3 = key2 + push_bit 1 key2;
          key4 = key3 XOR drop_bit 2 key3;
          key5 = key4 * 187;
          key6 = key5 XOR drop_bit 11 key5
      in key6)"

definition hash_none :: "32 word \<Rightarrow> 32 word" where
  "hash_none key0 = key0"

text \<open>
  The same mixer as the specification words it: six steps on unsigned integers below
  \<open>2 ^ 32\<close>, every sum, shift to the left and product reduced modulo \<open>2 ^ 32\<close>.
\<close>

definition hash32shift_spec :: "nat \<Rightarrow> nat" where
  "hash32shift_spec key0 =
     (let key1 = ((2 ^ 32 - 1 - key0) + (key0 * 2 ^ 10) mod 2 ^ 32) mod 2 ^ 32;
          key2 = key1 XOR (key1 div 2 ^ 7);
          key3 = (key2 + (key2 * 2 ^ 1) mod 2 ^ 32) mod 2 ^ 32;
          key4 = key3 XOR (key3 div 2 ^ 2);
          key5 = (key4 * 187) mod 2 ^ 32;
          key6 = key5 XOR (key5 div 2 ^ 11)
      in key6)"

section \<open>Data model\<close>

text \<open>
  The nine counters of \<^verbatim>\<open>hashtable_stat_t\<close>, each a \<^verbatim>\<open>uint64_t\<close>. The fields
  \<^verbatim>\<open>insert\<close>, \<^verbatim>\<open>remove\<close> and \<^verbatim>\<open>search\<close> carry the suffix \<open>_cnt\<close> here.
\<close>

record hashtable_stat_t =
  insert_cnt :: "64 word"
  remove_cnt :: "64 word"
  search_cnt :: "64 word"
  collision :: "64 word"
  overwritten :: "64 word"
  insert_err :: "64 word"
  remove_err :: "64 word"
  search_ok :: "64 word"
  search_err :: "64 word"

text \<open>
  A slot of \<^verbatim>\<open>DECLARE_HASHTABLE\<close>: the \<^verbatim>\<open>uint32_t\<close> key and the data of the declared
  \<^verbatim>\<open>data_type\<close>, which is the type parameter \<open>'v\<close>.
\<close>

record 'v slot_t =
  key :: "32 word"
  data :: 'v

text \<open>
  The arguments of one \<^verbatim>\<open>DECLARE_HASHTABLE(tokn, data_type, max_tries, illegal_key,
  illegal_data)\<close>, with \<^verbatim>\<open>sizeof(hashtable_tokn_slot_t)\<close> as \<open>slot_bytes\<close>.
  \<^verbatim>\<open>illegal_key\<close> is only ever stored in or compared with a \<^verbatim>\<open>uint32_t\<close>.
\<close>

record 'v decl =
  max_tries :: nat
  illegal_key :: "32 word"
  illegal_data :: 'v
  slot_bytes :: nat

text \<open>
  \<^verbatim>\<open>hashtable_t\<close>. \<^verbatim>\<open>size_t\<close> is \<^typ>\<open>64 word\<close> (the Linux x86-64 target of the
  code). A \<^verbatim>\<open>NULL\<close> hash function is \<open>None\<close>. The fields \<^verbatim>\<open>__size\<close>,
  \<^verbatim>\<open>__memory_size\<close>, \<^verbatim>\<open>__stat\<close> and \<^verbatim>\<open>__table\<close> are prefixed \<open>priv\<close>; the table
  is the array of slots \<^verbatim>\<open>__table\<close> points to, empty while the pointer is \<^verbatim>\<open>NULL\<close>.
\<close>

record 'v hashtable_t =
  name :: string
  bits :: nat
  hashfunction :: "(32 word \<Rightarrow> 32 word) option"
  priv_size :: "64 word"
  priv_memory_size :: "64 word"
  priv_stat :: hashtable_stat_t
  priv_table :: "'v slot_t list"

text \<open>
  A read or write outside the slot array, or a call through a \<^verbatim>\<open>NULL\<close> function
  pointer, is undefined behaviour in C; the model returns it as a fault.
\<close>

datatype fault = Invalid_access

section \<open>Index and allocation\<close>

text \<open>
  \<^verbatim>\<open>hash & (hashtable->__size - 1)\<close>: the \<^verbatim>\<open>uint32_t\<close> hash is widened to
  \<^verbatim>\<open>size_t\<close>, and \<^verbatim>\<open>__size - 1\<close> is computed in \<^verbatim>\<open>size_t\<close>.
\<close>

definition hashtable_get_index :: "'v hashtable_t \<Rightarrow> 32 word \<Rightarrow> 64 word" where
  "hashtable_get_index hashtable hash = ucast hash AND (priv_size hashtable - 1)"

text \<open>
  \<^verbatim>\<open>1 << bits\<close> is a shift of the \<^verbatim>\<open>int\<close> 1: it is \<open>2 ^ bits\<close> for
  \<open>bits \<le> 30\<close> and undefined in C beyond. The sum \<^verbatim>\<open>(1 << bits) + max_tries\<close> of
  \<^verbatim>\<open>hashtable_memory_size\<close> is an \<^verbatim>\<open>int\<close> sum, defined below \<open>2 ^ 31\<close>.
  \<open>decl_in_range\<close> is that range, with a slot size that is positive and small enough
  for the byte count \<^verbatim>\<open>sizeof(slot) * slots\<close> to fit \<^verbatim>\<open>size_t\<close>.
\<close>

definition shl1 :: "nat \<Rightarrow> nat" where
  "shl1 n = push_bit n 1"

definition decl_in_range :: "'v decl \<Rightarrow> nat \<Rightarrow> bool" where
  "decl_in_range d n \<longleftrightarrow>
     n \<le> 30 \<and> shl1 n + max_tries d < 2 ^ 31 \<and> 0 < slot_bytes d \<and> slot_bytes d < 2 ^ 32"

definition hashtable_memory_size :: "'v decl \<Rightarrow> nat \<Rightarrow> 64 word" where
  "hashtable_memory_size d n =
     (let slots = of_nat (shl1 n + max_tries d) :: 64 word
      in of_nat (slot_bytes d) * slots)"

text \<open>
  \<^verbatim>\<open>hashtable_alloc\<close> in user space is \<^verbatim>\<open>malloc(size)\<close>: \<^verbatim>\<open>NULL\<close>, or a block of
  \<^verbatim>\<open>size\<close> bytes whose contents are not specified. The block is seen as the array of
  the slots that fit in it; \<open>avail\<close> says whether the allocator has the memory and
  \<open>junk\<close> is what the block holds.
\<close>

record 'v allocator =
  avail :: bool
  junk :: "nat \<Rightarrow> 'v slot_t"

definition hashtable_alloc :: "'v allocator \<Rightarrow> 'v decl \<Rightarrow> 64 word \<Rightarrow> 'v slot_t list option" where
  "hashtable_alloc a d sz =
     (if avail a then Some (map (junk a) [0 ..< unat sz div slot_bytes d]) else None)"

section \<open>Construction\<close>

definition hashtable_init_slot :: "'v decl \<Rightarrow> 'v slot_t \<Rightarrow> 'v slot_t" where
  "hashtable_init_slot d slot = slot\<lparr>key := illegal_key d, data := illegal_data d\<rparr>"

text \<open>
  The loop \<^verbatim>\<open>for (i = 0; i < hashtable->__size + max_tries; i++)\<close> of
  \<^verbatim>\<open>hashtable_init\<close>, from \<open>i\<close> on; \<open>n\<close> is the bound.
\<close>

function init_loop :: "'v decl \<Rightarrow> 'v slot_t list \<Rightarrow> nat \<Rightarrow> nat \<Rightarrow> fault + 'v slot_t list" where
  "init_loop d tbl i n =
     (if i < n then
        (if i < length tbl then
           init_loop d (tbl[i := hashtable_init_slot d (tbl ! i)]) (i + 1) n
         else Inl Invalid_access)
      else Inr tbl)"
  by pat_completeness auto
termination
  by (relation "measure (\<lambda>(d, tbl, i, n). n - i)") auto

text \<open>
  \<^verbatim>\<open>hashtable_init\<close>. The registry and the log line are left out: no operation of
  the table reads them. The result is the table and the returned \<^verbatim>\<open>int\<close>.
\<close>

definition hashtable_init ::
  "'v decl \<Rightarrow> 'v allocator \<Rightarrow> 'v hashtable_t \<Rightarrow> fault + ('v hashtable_t \<times> int)" where
  "hashtable_init d a hashtable =
     (let memory_size = hashtable_memory_size d (bits hashtable);
          p = hashtable_alloc a d memory_size
      in case p of
           Some mem \<Rightarrow>
             (let h1 = (if hashfunction hashtable = None
                        then hashtable\<lparr>hashfunction := Some hash32shift\<rparr> else hashtable);
                  h2 = h1\<lparr>priv_size := of_nat (shl1 (bits h1))\<rparr>;
                  h3 = h2\<lparr>priv_memory_size := memory_size\<rparr>;
                  h4 = h3\<lparr>priv_table := mem\<rparr>
              in case init_loop d (priv_table h4) 0
                        (unat (priv_size h4 + of_nat (max_tries d))) of
                   Inl e \<Rightarrow> Inl e
                 | Inr tbl \<Rightarrow> Inr (h4\<lparr>priv_table := tbl\<rparr>, 1))
         | None \<Rightarrow> Inr (hashtable, 0))"

section \<open>Insert, remove, find\<close>

text \<open>
  \<^verbatim>\<open>HASHTABLE_CMPXCHG(ptr, val, new_val)\<close> run alone: the location keeps its contents
  unless they equal \<open>val\<close>, and the old contents are returned. The pair is the new
  contents and the returned value.
\<close>

definition cmpxchg :: "32 word \<Rightarrow> 32 word \<Rightarrow> 32 word \<Rightarrow> 32 word \<times> 32 word" where
  "cmpxchg cur val new_val = (if cur = val then new_val else cur, cur)"

definition set_key :: "'v slot_t list \<Rightarrow> nat \<Rightarrow> 32 word \<Rightarrow> 'v slot_t list" where
  "set_key tbl i k = tbl[i := (tbl ! i)\<lparr>key := k\<rparr>]"

definition set_data :: "'v slot_t list \<Rightarrow> nat \<Rightarrow> 'v \<Rightarrow> 'v slot_t list" where
  "set_data tbl i v = tbl[i := (tbl ! i)\<lparr>data := v\<rparr>]"

text \<open>
  The three operations start alike: \<^verbatim>\<open>index\<close> is the \<^verbatim>\<open>size_t\<close> index cut to
  \<^verbatim>\<open>uint32_t\<close>, \<^verbatim>\<open>index_max = index + max_tries\<close> is a \<^verbatim>\<open>uint32_t\<close> sum, and the
  loop runs a slot pointer from \<^verbatim>\<open>&table[index]\<close> while it is below
  \<^verbatim>\<open>&table[index_max]\<close>. The pointers are the positions \<open>unat index\<close> and
  \<open>unat index_max\<close> in the slot list.
\<close>

definition probe_index :: "'v hashtable_t \<Rightarrow> (32 word \<Rightarrow> 32 word) \<Rightarrow> 32 word \<Rightarrow> 32 word" where
  "probe_index hashtable hf k = ucast (hashtable_get_index hashtable (hf k))"

definition probe_index_max :: "'v decl \<Rightarrow> 32 word \<Rightarrow> 32 word" where
  "probe_index_max d index = index + of_nat (max_tries d)"

text \<open>The loop of \<^verbatim>\<open>hashtable_insert\<close>; \<open>k\<close> and \<open>v\<close> are its \<^verbatim>\<open>key\<close> and \<^verbatim>\<open>data\<close>.\<close>

function insert_loop ::
  "'v decl \<Rightarrow> 32 word \<Rightarrow> 'v \<Rightarrow> 'v hashtable_t \<Rightarrow> nat \<Rightarrow> nat \<Rightarrow> fault + ('v hashtable_t \<times> int)" where
  "insert_loop d k v hashtable slot slot_max =
     (if slot < slot_max then
        (if slot < length (priv_table hashtable) then
           (let (stored, old_key) =
                  cmpxchg (key (priv_table hashtable ! slot)) (illegal_key d) k;
                h1 = hashtable\<lparr>priv_table := set_key (priv_table hashtable) slot stored\<rparr>
            in if old_key = illegal_key d then
                 Inr (h1\<lparr>priv_table := set_data (priv_table h1) slot v\<rparr>, 1)
               else if old_key = k then
                 (let h2 = h1\<lparr>priv_table := set_data (priv_table h1) slot v\<rparr>
                  in Inr (h2\<lparr>priv_stat := (priv_stat h2)
                            \<lparr>overwritten := overwritten (priv_stat h2) + 1\<rparr>\<rparr>, 1))
               else
                 insert_loop d k v
                   (h1\<lparr>priv_stat := (priv_stat h1)
                         \<lparr>collision := collision (priv_stat h1) + 1\<rparr>\<rparr>)
                   (slot + 1) slot_max)
         else Inl Invalid_access)
      else
        Inr (hashtable\<lparr>priv_stat := (priv_stat hashtable)
               \<lparr>insert_err := insert_err (priv_stat hashtable) + 1\<rparr>\<rparr>, 0))"
  by pat_completeness auto
termination
  by (relation "measure (\<lambda>(d, k, v, hashtable, slot, slot_max). slot_max - slot)") auto

definition hashtable_insert ::
  "'v decl \<Rightarrow> 'v hashtable_t \<Rightarrow> 32 word \<Rightarrow> 'v \<Rightarrow> fault + ('v hashtable_t \<times> int)" where
  "hashtable_insert d hashtable k v =
     (case hashfunction hashtable of
        None \<Rightarrow> Inl Invalid_access
      | Some hf \<Rightarrow>
          (let index = probe_index hashtable hf k;
               index_max = probe_index_max d index;
               h1 = hashtable\<lparr>priv_stat := (priv_stat hashtable)
                      \<lparr>insert_cnt := insert_cnt (priv_stat hashtable) + 1\<rparr>\<rparr>
           in insert_loop d k v h1 (unat index) (unat index_max)))"

text \<open>
  The loop of \<^verbatim>\<open>hashtable_remove\<close>. \<open>out\<close> is the location \<^verbatim>\<open>data\<close> points to:
  \<open>None\<close> for a \<^verbatim>\<open>NULL\<close> pointer, else its contents; the result carries the contents
  after the call.
\<close>

function remove_loop ::
  "'v decl \<Rightarrow> 32 word \<Rightarrow> 'v option \<Rightarrow> 'v hashtable_t \<Rightarrow> nat \<Rightarrow> nat
     \<Rightarrow> fault + ('v hashtable_t \<times> 'v option \<times> int)" where
  "remove_loop d k out hashtable slot slot_max =
     (if slot < slot_max then
        (if slot < length (priv_table hashtable) then
           (let old_key = key (priv_table hashtable ! slot)
            in if old_key = k then
                 (let out1 = (case out of None \<Rightarrow> None
                              | Some _ \<Rightarrow> Some (data (priv_table hashtable ! slot)));
                      h1 = hashtable\<lparr>priv_table :=
                             set_data (priv_table hashtable) slot (illegal_data d)\<rparr>;
                      h2 = h1\<lparr>priv_table := set_key (priv_table h1) slot (illegal_key d)\<rparr>
                  in Inr (h2, out1, 1))
               else remove_loop d k out hashtable (slot + 1) slot_max)
         else Inl Invalid_access)
      else
        Inr (hashtable\<lparr>priv_stat := (priv_stat hashtable)
               \<lparr>remove_err := remove_err (priv_stat hashtable) + 1\<rparr>\<rparr>, out, 0))"
  by pat_completeness auto
termination
  by (relation "measure (\<lambda>(d, k, out, hashtable, slot, slot_max). slot_max - slot)") auto

definition hashtable_remove ::
  "'v decl \<Rightarrow> 'v hashtable_t \<Rightarrow> 32 word \<Rightarrow> 'v option
     \<Rightarrow> fault + ('v hashtable_t \<times> 'v option \<times> int)" where
  "hashtable_remove d hashtable k out =
     (case hashfunction hashtable of
        None \<Rightarrow> Inl Invalid_access
      | Some hf \<Rightarrow>
          (let index = probe_index hashtable hf k;
               index_max = probe_index_max d index;
               h1 = hashtable\<lparr>priv_stat := (priv_stat hashtable)
                      \<lparr>remove_cnt := remove_cnt (priv_stat hashtable) + 1\<rparr>\<rparr>
           in remove_loop d k out h1 (unat index) (unat index_max)))"

text \<open>
  The loop of \<^verbatim>\<open>hashtable_find\<close>. \<open>out\<close> is the contents of the location \<^verbatim>\<open>data\<close>
  points to, which the code writes without a \<^verbatim>\<open>NULL\<close> test.
\<close>

function find_loop ::
  "32 word \<Rightarrow> 'v \<Rightarrow> 'v hashtable_t \<Rightarrow> nat \<Rightarrow> nat \<Rightarrow> fault + ('v hashtable_t \<times> 'v \<times> int)" where
  "find_loop k out hashtable slot slot_max =
     (if slot < slot_max then
        (if slot < length (priv_table hashtable) then
           (let old_key = key (priv_table hashtable ! slot)
            in if old_key = k then
                 Inr (hashtable\<lparr>priv_stat := (priv_stat hashtable)
                        \<lparr>search_ok := search_ok (priv_stat hashtable) + 1\<rparr>\<rparr>,
                      data (priv_table hashtable ! slot), 1)
               else find_loop k out hashtable (slot + 1) slot_max)
         else Inl Invalid_access)
      else
        Inr (hashtable\<lparr>priv_stat := (priv_stat hashtable)
               \<lparr>search_err := search_err (priv_stat hashtable) + 1\<rparr>\<rparr>, out, 0))"
  by pat_completeness auto
termination
  by (relation "measure (\<lambda>(k, out, hashtable, slot, slot_max). slot_max - slot)") auto

definition hashtable_find ::
  "'v decl \<Rightarrow> 'v hashtable_t \<Rightarrow> 32 word \<Rightarrow> 'v \<Rightarrow> fault + ('v hashtable_t \<times> 'v \<times> int)" where
  "hashtable_find d hashtable k out =
     (case hashfunction hashtable of
        None \<Rightarrow> Inl Invalid_access
      | Some hf \<Rightarrow>
          (let index = probe_index hashtable hf k;
               index_max = probe_index_max d index;
               h1 = hashtable\<lparr>priv_stat := (priv_stat hashtable)
                      \<lparr>search_cnt := search_cnt (priv_stat hashtable) + 1\<rparr>\<rparr>
           in find_loop k out h1 (unat index) (unat index_max)))"

section \<open>Notions used to state the properties\<close>

text \<open>The table after one more collision is counted, and what remove leaves in \<^verbatim>\<open>*data\<close>.\<close>

definition bump_collision :: "'v hashtable_t \<Rightarrow> 'v hashtable_t" where
  "bump_collision h = h\<lparr>priv_stat := (priv_stat h)\<lparr>collision := collision (priv_stat h) + 1\<rparr>\<rparr>"

definition removed_out :: "'v option \<Rightarrow> 'v \<Rightarrow> 'v option" where
  "removed_out out x = (case out of None \<Rightarrow> None | Some _ \<Rightarrow> Some x)"

text \<open>A free slot: what \<^verbatim>\<open>hashtable_init_slot\<close> leaves.\<close>

definition free_slot :: "'v decl \<Rightarrow> 'v slot_t" where
  "free_slot d = \<lparr>key = illegal_key d, data = illegal_data d\<rparr>"

text \<open>
  The probe window of a key: the positions from \<^verbatim>\<open>index\<close> up to, not including,
  \<^verbatim>\<open>index_max\<close>, as the three operations compute them. \<open>key_slots\<close> lists the
  positions of the window whose slot holds the key.
\<close>

definition probe_window :: "'v decl \<Rightarrow> 'v hashtable_t \<Rightarrow> 32 word \<Rightarrow> nat list" where
  "probe_window d hashtable k =
     (case hashfunction hashtable of
        None \<Rightarrow> []
      | Some hf \<Rightarrow>
          (let index = probe_index hashtable hf k;
               index_max = probe_index_max d index
           in [unat index ..< unat index_max]))"

definition key_slots :: "'v decl \<Rightarrow> 'v hashtable_t \<Rightarrow> 32 word \<Rightarrow> nat list" where
  "key_slots d hashtable k =
     filter (\<lambda>j. j < length (priv_table hashtable) \<and> key (priv_table hashtable ! j) = k)
       (probe_window d hashtable k)"

text \<open>
  A table as \<^verbatim>\<open>hashtable_init\<close> sets it up: a hash function, \<^verbatim>\<open>__size\<close> the power
  of two of \<^verbatim>\<open>bits\<close>, and \<^verbatim>\<open>__size + max_tries\<close> slots.
\<close>

definition table_ok :: "'v decl \<Rightarrow> 'v hashtable_t \<Rightarrow> bool" where
  "table_ok d hashtable \<longleftrightarrow>
     hashfunction hashtable \<noteq> None \<and> bits hashtable \<le> 30 \<and>
     priv_size hashtable = of_nat (shl1 (bits hashtable)) \<and>
     length (priv_table hashtable) = shl1 (bits hashtable) + max_tries d"

text \<open>
  A sequential run: the calls a single thread makes, in order. Each call yields the
  returned \<^verbatim>\<open>int\<close> and the contents of \<^verbatim>\<open>*data\<close> after it (\<open>None\<close> where the call
  has no such argument or it is \<^verbatim>\<open>NULL\<close>). A fault ends the run.
\<close>

datatype 'v call =
    Init "'v allocator"
  | Insert "32 word" 'v
  | Remove "32 word" "'v option"
  | Find "32 word" 'v

fun call_step ::
  "'v decl \<Rightarrow> 'v hashtable_t \<Rightarrow> 'v call \<Rightarrow> fault + ('v hashtable_t \<times> int \<times> 'v option)" where
  "call_step d h (Init a) =
     (case hashtable_init d a h of Inl e \<Rightarrow> Inl e | Inr (h', rc) \<Rightarrow> Inr (h', rc, None))"
| "call_step d h (Insert k v) =
     (case hashtable_insert d h k v of Inl e \<Rightarrow> Inl e | Inr (h', rc) \<Rightarrow> Inr (h', rc, None))"
| "call_step d h (Remove k out) =
     (case hashtable_remove d h k out of Inl e \<Rightarrow> Inl e | Inr (h', out', rc) \<Rightarrow> Inr (h', rc, out'))"
| "call_step d h (Find k out) =
     (case hashtable_find d h k out of Inl e \<Rightarrow> Inl e | Inr (h', out', rc) \<Rightarrow> Inr (h', rc, Some out'))"

fun run ::
  "'v decl \<Rightarrow> 'v hashtable_t \<Rightarrow> 'v call list \<Rightarrow> fault + ('v hashtable_t \<times> (int \<times> 'v option) list)" where
  "run d h [] = Inr (h, [])"
| "run d h (c # cs) =
     (case call_step d h c of
        Inl e \<Rightarrow> Inl e
      | Inr (h', r) \<Rightarrow>
          (case run d h' cs of Inl e \<Rightarrow> Inl e | Inr (h'', rs) \<Rightarrow> Inr (h'', r # rs)))"

text \<open>
  The table of \<^verbatim>\<open>hashtable_test.cpp\<close>:
  \<^verbatim>\<open>static hashtable_t hashtable = {"hash", HASHTABLE_BITS, hash_none}\<close> with
  \<^verbatim>\<open>HASHTABLE_BITS\<close> 8, the other fields zero, and
  \<^verbatim>\<open>DECLARE_HASHTABLE(uint32, uint32_t, 4, 0, 0)\<close>, whose slot is two \<^verbatim>\<open>uint32_t\<close>.
\<close>

definition stat_zero :: hashtable_stat_t where
  "stat_zero = \<lparr>insert_cnt = 0, remove_cnt = 0, search_cnt = 0, collision = 0,
     overwritten = 0, insert_err = 0, remove_err = 0, search_ok = 0, search_err = 0\<rparr>"

definition uint32_decl :: "32 word decl" where
  "uint32_decl = \<lparr>max_tries = 4, illegal_key = 0, illegal_data = 0, slot_bytes = 8\<rparr>"

definition hashtable :: "32 word hashtable_t" where
  "hashtable = \<lparr>name = ''hash'', bits = 8, hashfunction = Some hash_none, priv_size = 0,
     priv_memory_size = 0, priv_stat = stat_zero, priv_table = []\<rparr>"

text \<open>An allocator that has the memory and hands out blocks of zeroes.\<close>

definition zeroed :: "32 word allocator" where
  "zeroed = \<lparr>avail = True, junk = (\<lambda>_. \<lparr>key = 0, data = 0\<rparr>)\<rparr>"

text \<open>
  States of that table: after \<^verbatim>\<open>hashtable_uint32_init\<close>; after the insert of key 256
  with data 256 into it; and after the inserts of 256, 512, 768 and 1024, each with its
  key as data, which all hash to index 0.
\<close>

definition table_fresh :: "32 word hashtable_t" where
  "table_fresh = hashtable\<lparr>priv_size := 256, priv_memory_size := 2080,
     priv_table := replicate 260 \<lparr>key = 0, data = 0\<rparr>\<rparr>"

definition table_one :: "32 word hashtable_t" where
  "table_one = table_fresh\<lparr>priv_stat := stat_zero\<lparr>insert_cnt := 1\<rparr>,
     priv_table := \<lparr>key = 256, data = 256\<rparr> # replicate 259 \<lparr>key = 0, data = 0\<rparr>\<rparr>"

definition table_chain :: "32 word hashtable_t" where
  "table_chain = table_fresh\<lparr>priv_stat := stat_zero\<lparr>insert_cnt := 4, collision := 6\<rparr>,
     priv_table := [\<lparr>key = 256, data = 256\<rparr>, \<lparr>key = 512, data = 512\<rparr>,
       \<lparr>key = 768, data = 768\<rparr>, \<lparr>key = 1024, data = 1024\<rparr>]
       @ replicate 256 \<lparr>key = 0, data = 0\<rparr>\<rparr>"

text \<open>
  \<open>table_full\<close> is \<open>table_chain\<close> after a fifth insert, of key 1280, has failed.
  \<open>table_dup\<close> is the test table after init, the inserts of 256 and 512 (each with
  its key as data), the remove of 256 and a second insert of 512, with data 7.
\<close>

definition table_full :: "32 word hashtable_t" where
  "table_full = table_chain\<lparr>priv_stat :=
     stat_zero\<lparr>insert_cnt := 5, collision := 10, insert_err := 1\<rparr>\<rparr>"

definition table_dup :: "32 word hashtable_t" where
  "table_dup = table_fresh\<lparr>priv_stat := stat_zero\<lparr>insert_cnt := 3, remove_cnt := 1, collision := 1\<rparr>,
     priv_table := [\<lparr>key = 512, data = 7\<rparr>, \<lparr>key = 512, data = 512\<rparr>]
       @ replicate 258 \<lparr>key = 0, data = 0\<rparr>\<rparr>"

section \<open>The default hash function\<close>

lemma unat_not32: "unat (NOT w :: 32 word) = 2 ^ 32 - 1 - unat w"
proof -
  have "NOT w = - 1 - w" by (simp add: not_eq_complement)
  moreover have "unat (- 1 - w) = unat (- 1 :: 32 word) - unat w"
    by (rule unat_sub) simp
  moreover have "unat (- 1 :: 32 word) = 2 ^ 32 - 1"
    by (simp add: unsigned_minus_1_eq_mask mask_eq_exp_minus_1)
  ultimately show ?thesis by simp
qed

lemma unat_shl32: "unat (push_bit n w :: 32 word) = (unat w * 2 ^ n) mod 2 ^ 32"
proof -
  have "unat (push_bit n w) = take_bit 32 (push_bit n (unat w))"
    by (simp only: unsigned_push_bit_eq) simp
  then show ?thesis
    by (simp only: take_bit_eq_mod push_bit_eq_mult)
qed

lemma unat_add32: "unat (a + b :: 32 word) = (unat a + unat b) mod 2 ^ 32"
  by (simp add: unat_word_ariths)

lemma unat_mult32: "unat (a * b :: 32 word) = (unat a * unat b) mod 2 ^ 32"
  by (simp add: unat_word_ariths)

lemma unat_shr32: "unat (drop_bit n w :: 32 word) = unat w div 2 ^ n"
proof -
  have "unat (drop_bit n w) = drop_bit n (unat w)"
    by (rule unat_drop_bit_eq)
  then show ?thesis
    by (simp only: drop_bit_eq_div)
qed

lemma unat_xor32: "unat (a XOR b :: 32 word) = unat a XOR unat b"
  by (simp add: unsigned_xor_eq)

lemma unat_187: "unat (187 :: 32 word) = 187"
  by simp

text \<open>
  C6. The default hash function is the six-step mixer of the specification: read as
  unsigned numbers, the result of \<open>hash32shift\<close> on any 32-bit key is the result of
  the specification's sequence, in which every sum, left shift and product is reduced
  modulo \<open>2 ^ 32\<close>.
\<close>

theorem hash32shift_refines_spec: "unat (hash32shift k) = hash32shift_spec (unat k)"
  by (simp only: hash32shift_def hash32shift_spec_def Let_def unat_xor32 unat_shr32
        unat_mult32 unat_add32 unat_shl32 unat_not32 unat_187)

lemma hash32shift_at_1: "hash32shift 1 = 434104" "hash32shift_spec 1 = 434104"
  by (simp_all add: hash32shift_def hash32shift_spec_def)
section \<open>The probe loops, one step at a time\<close>

declare init_loop.simps [simp del] insert_loop.simps [simp del]
  remove_loop.simps [simp del] find_loop.simps [simp del]

lemma insert_loop_stop:
  "\<not> i < n \<Longrightarrow> insert_loop d k v h i n =
     Inr (h\<lparr>priv_stat := (priv_stat h)\<lparr>insert_err := insert_err (priv_stat h) + 1\<rparr>\<rparr>, 0)"
  by (subst insert_loop.simps) simp

lemma insert_loop_fault:
  "i < n \<Longrightarrow> \<not> i < length (priv_table h) \<Longrightarrow> insert_loop d k v h i n = Inl Invalid_access"
  by (subst insert_loop.simps) simp

lemma insert_loop_claim:
  "i < n \<Longrightarrow> i < length (priv_table h) \<Longrightarrow> key (priv_table h ! i) = illegal_key d \<Longrightarrow>
   insert_loop d k v h i n =
     Inr (h\<lparr>priv_table := (priv_table h)[i := (priv_table h ! i)\<lparr>key := k, data := v\<rparr>]\<rparr>, 1)"
  by (subst insert_loop.simps) (simp add: cmpxchg_def set_key_def set_data_def)

lemma insert_loop_overwrite:
  "i < n \<Longrightarrow> i < length (priv_table h) \<Longrightarrow> key (priv_table h ! i) \<noteq> illegal_key d \<Longrightarrow>
   key (priv_table h ! i) = k \<Longrightarrow>
   insert_loop d k v h i n =
     Inr (h\<lparr>priv_table := (priv_table h)[i := (priv_table h ! i)\<lparr>key := k, data := v\<rparr>],
            priv_stat := (priv_stat h)\<lparr>overwritten := overwritten (priv_stat h) + 1\<rparr>\<rparr>, 1)"
  by (subst insert_loop.simps) (simp add: cmpxchg_def set_key_def set_data_def)

lemma insert_loop_collision:
  "i < n \<Longrightarrow> i < length (priv_table h) \<Longrightarrow> key (priv_table h ! i) \<noteq> illegal_key d \<Longrightarrow>
   key (priv_table h ! i) \<noteq> k \<Longrightarrow>
   insert_loop d k v h i n = insert_loop d k v (bump_collision h) (Suc i) n"
  by (subst insert_loop.simps) (simp add: cmpxchg_def set_key_def bump_collision_def)

lemma bump_collision_simps [simp]:
  "name (bump_collision h) = name h" "bits (bump_collision h) = bits h"
  "hashfunction (bump_collision h) = hashfunction h"
  "priv_size (bump_collision h) = priv_size h"
  "priv_memory_size (bump_collision h) = priv_memory_size h"
  "priv_table (bump_collision h) = priv_table h"
  "priv_stat (bump_collision h) = (priv_stat h)\<lparr>collision := collision (priv_stat h) + 1\<rparr>"
  by (simp_all add: bump_collision_def)

lemma insert_loop_cases:
  obtains (stop) "\<not> i < n"
    | (fault) "i < n" "\<not> i < length (priv_table h)"
    | (claim) "i < n" "i < length (priv_table h)" "key (priv_table h ! i) = illegal_key d"
    | (over) "i < n" "i < length (priv_table h)" "key (priv_table h ! i) \<noteq> illegal_key d"
        "key (priv_table h ! i) = k"
    | (coll) "i < n" "i < length (priv_table h)" "key (priv_table h ! i) \<noteq> illegal_key d"
        "key (priv_table h ! i) \<noteq> k"
  by blast

lemma insert_loop_frame:
  "insert_loop d k v h i n = Inr (h', rc) \<Longrightarrow>
     name h' = name h \<and> bits h' = bits h \<and> hashfunction h' = hashfunction h \<and>
     priv_size h' = priv_size h \<and> priv_memory_size h' = priv_memory_size h \<and>
     length (priv_table h') = length (priv_table h) \<and> (rc = 0 \<or> rc = 1)"
proof (induction m \<equiv> "n - i" arbitrary: i h)
  case 0
  then show ?case by (auto simp: insert_loop_stop)
next
  case (Suc m)
  show ?case
  proof (cases rule: insert_loop_cases [where i = i and n = n and h = h and d = d and k = k])
    case stop
    with Suc.prems show ?thesis by (auto simp: insert_loop_stop)
  next
    case fault
    with Suc.prems show ?thesis by (simp add: insert_loop_fault)
  next
    case claim
    with Suc.prems show ?thesis by (auto simp: insert_loop_claim)
  next
    case over
    with Suc.prems show ?thesis by (auto simp: insert_loop_overwrite)
  next
    case coll
    with Suc.prems have "insert_loop d k v (bump_collision h) (Suc i) n = Inr (h', rc)"
      by (simp add: insert_loop_collision)
    moreover from Suc.hyps(2) have "m = n - Suc i" by simp
    ultimately show ?thesis using Suc.hyps(1) [of "Suc i" "bump_collision h"] by simp
  qed
qed

lemma insert_loop_success:
  "insert_loop d k v h i n = Inr (h', 1) \<Longrightarrow>
     \<exists>j. i \<le> j \<and> j < n \<and> j < length (priv_table h) \<and>
       (\<forall>m. i \<le> m \<and> m < j \<longrightarrow>
          key (priv_table h ! m) \<noteq> illegal_key d \<and> key (priv_table h ! m) \<noteq> k) \<and>
       (key (priv_table h ! j) = illegal_key d \<or> key (priv_table h ! j) = k) \<and>
       priv_table h' = (priv_table h)[j := (priv_table h ! j)\<lparr>key := k, data := v\<rparr>]"
proof (induction m \<equiv> "n - i" arbitrary: i h)
  case 0
  then show ?case by (simp add: insert_loop_stop)
next
  case (Suc m)
  show ?case
  proof (cases rule: insert_loop_cases [where i = i and n = n and h = h and d = d and k = k])
    case stop
    with Suc.prems show ?thesis by (simp add: insert_loop_stop)
  next
    case fault
    with Suc.prems show ?thesis by (simp add: insert_loop_fault)
  next
    case claim
    with Suc.prems have "priv_table h' = (priv_table h)[i := (priv_table h ! i)\<lparr>key := k, data := v\<rparr>]"
      by (auto simp: insert_loop_claim)
    with claim show ?thesis by (intro exI [of _ i]) auto
  next
    case over
    with Suc.prems have "priv_table h' = (priv_table h)[i := (priv_table h ! i)\<lparr>key := k, data := v\<rparr>]"
      by (auto simp: insert_loop_overwrite)
    with over show ?thesis by (intro exI [of _ i]) auto
  next
    case coll
    with Suc.prems have "insert_loop d k v (bump_collision h) (Suc i) n = Inr (h', 1)"
      by (simp add: insert_loop_collision)
    moreover from Suc.hyps(2) have "m = n - Suc i" by simp
    ultimately obtain j where j: "Suc i \<le> j" "j < n" "j < length (priv_table h)"
      "\<forall>m. Suc i \<le> m \<and> m < j \<longrightarrow>
          key (priv_table h ! m) \<noteq> illegal_key d \<and> key (priv_table h ! m) \<noteq> k"
      "key (priv_table h ! j) = illegal_key d \<or> key (priv_table h ! j) = k"
      "priv_table h' = (priv_table h)[j := (priv_table h ! j)\<lparr>key := k, data := v\<rparr>]"
      using Suc.hyps(1) [of "Suc i" "bump_collision h"] by auto
    have "\<forall>m. i \<le> m \<and> m < j \<longrightarrow>
          key (priv_table h ! m) \<noteq> illegal_key d \<and> key (priv_table h ! m) \<noteq> k"
    proof (intro allI impI)
      fix m assume "i \<le> m \<and> m < j"
      then consider "m = i" | "Suc i \<le> m \<and> m < j" by linarith
      then show "key (priv_table h ! m) \<noteq> illegal_key d \<and> key (priv_table h ! m) \<noteq> k"
        using coll j(4) by cases auto
    qed
    with j show ?thesis by (intro exI [of _ j]) simp
  qed
qed

lemma insert_loop_failure:
  "insert_loop d k v h i n = Inr (h', 0) \<Longrightarrow>
     priv_table h' = priv_table h \<and>
     priv_stat h' = (priv_stat h)
       \<lparr>collision := collision (priv_stat h) + of_nat (n - i),
        insert_err := insert_err (priv_stat h) + 1\<rparr>"
proof (induction m \<equiv> "n - i" arbitrary: i h)
  case 0
  then show ?case by (auto simp: insert_loop_stop)
next
  case (Suc m)
  show ?case
  proof (cases rule: insert_loop_cases [where i = i and n = n and h = h and d = d and k = k])
    case stop
    with Suc.hyps(2) show ?thesis by simp
  next
    case fault
    with Suc.prems show ?thesis by (simp add: insert_loop_fault)
  next
    case claim
    with Suc.prems show ?thesis by (simp add: insert_loop_claim)
  next
    case over
    with Suc.prems show ?thesis by (simp add: insert_loop_overwrite)
  next
    case coll
    with Suc.prems have "insert_loop d k v (bump_collision h) (Suc i) n = Inr (h', 0)"
      by (simp add: insert_loop_collision)
    moreover from Suc.hyps(2) have m: "m = n - Suc i" by simp
    ultimately have "priv_table h' = priv_table (bump_collision h) \<and>
      priv_stat h' = (priv_stat (bump_collision h))
       \<lparr>collision := collision (priv_stat (bump_collision h)) + of_nat (n - Suc i),
        insert_err := insert_err (priv_stat (bump_collision h)) + 1\<rparr>"
      using Suc.hyps(1) [of "Suc i" "bump_collision h"] by blast
    moreover from coll have "n - i = Suc (n - Suc i)" by simp
    ultimately show ?thesis by (simp add: add.assoc add.commute)
  qed
qed

lemma insert_loop_counters:
  "insert_loop d k v h i n = Inr (h', rc) \<Longrightarrow>
     insert_cnt (priv_stat h') = insert_cnt (priv_stat h) \<and>
     remove_cnt (priv_stat h') = remove_cnt (priv_stat h) \<and>
     search_cnt (priv_stat h') = search_cnt (priv_stat h) \<and>
     remove_err (priv_stat h') = remove_err (priv_stat h) \<and>
     search_ok (priv_stat h') = search_ok (priv_stat h) \<and>
     search_err (priv_stat h') = search_err (priv_stat h) \<and>
     (rc = 1 \<longrightarrow> insert_err (priv_stat h') = insert_err (priv_stat h))"
proof (induction m \<equiv> "n - i" arbitrary: i h)
  case 0
  then show ?case by (auto simp: insert_loop_stop)
next
  case (Suc m)
  show ?case
  proof (cases rule: insert_loop_cases [where i = i and n = n and h = h and d = d and k = k])
    case stop
    with Suc.hyps(2) show ?thesis by simp
  next
    case fault
    with Suc.prems show ?thesis by (simp add: insert_loop_fault)
  next
    case claim
    with Suc.prems show ?thesis by (auto simp: insert_loop_claim)
  next
    case over
    with Suc.prems show ?thesis by (auto simp: insert_loop_overwrite)
  next
    case coll
    with Suc.prems have "insert_loop d k v (bump_collision h) (Suc i) n = Inr (h', rc)"
      by (simp add: insert_loop_collision)
    moreover from Suc.hyps(2) have m: "m = n - Suc i" by simp
    ultimately show ?thesis
      using Suc.hyps(1) [of "Suc i" "bump_collision h"] by simp
  qed
qed

lemma insert_loop_first:
  assumes "i \<le> j" "j < n" "j < length (priv_table h)"
    and "\<forall>m. i \<le> m \<and> m < j \<longrightarrow>
          key (priv_table h ! m) \<noteq> illegal_key d \<and> key (priv_table h ! m) \<noteq> k"
    and "key (priv_table h ! j) = illegal_key d \<or> key (priv_table h ! j) = k"
  shows "\<exists>h'. insert_loop d k v h i n = Inr (h', 1) \<and>
     priv_table h' = (priv_table h)[j := (priv_table h ! j)\<lparr>key := k, data := v\<rparr>]"
  using assms
proof (induction m \<equiv> "j - i" arbitrary: i h)
  case 0
  then have "i = j" by simp
  with 0 show ?case
    by (cases "key (priv_table h ! j) = illegal_key d")
      (auto simp: insert_loop_claim insert_loop_overwrite)
next
  case (Suc m)
  then have lt: "i < j" by simp
  with Suc.prems have nk: "key (priv_table h ! i) \<noteq> illegal_key d" "key (priv_table h ! i) \<noteq> k"
    by auto
  from lt Suc.prems have "insert_loop d k v h i n = insert_loop d k v (bump_collision h) (Suc i) n"
    using nk by (intro insert_loop_collision) auto
  moreover have "\<exists>h'. insert_loop d k v (bump_collision h) (Suc i) n = Inr (h', 1) \<and>
     priv_table h' = (priv_table (bump_collision h))
        [j := (priv_table (bump_collision h) ! j)\<lparr>key := k, data := v\<rparr>]"
    using Suc.hyps(2) lt Suc.prems by (intro Suc.hyps(1)) auto
  ultimately show ?case by simp
qed

subsection \<open>The loop of find\<close>

lemma find_loop_stop:
  "\<not> i < n \<Longrightarrow> find_loop k out h i n =
     Inr (h\<lparr>priv_stat := (priv_stat h)\<lparr>search_err := search_err (priv_stat h) + 1\<rparr>\<rparr>, out, 0)"
  by (subst find_loop.simps) simp

lemma find_loop_fault:
  "i < n \<Longrightarrow> \<not> i < length (priv_table h) \<Longrightarrow> find_loop k out h i n = Inl Invalid_access"
  by (subst find_loop.simps) simp

lemma find_loop_hit:
  "i < n \<Longrightarrow> i < length (priv_table h) \<Longrightarrow> key (priv_table h ! i) = k \<Longrightarrow>
   find_loop k out h i n =
     Inr (h\<lparr>priv_stat := (priv_stat h)\<lparr>search_ok := search_ok (priv_stat h) + 1\<rparr>\<rparr>,
          data (priv_table h ! i), 1)"
  by (subst find_loop.simps) simp

lemma find_loop_skip:
  "i < n \<Longrightarrow> i < length (priv_table h) \<Longrightarrow> key (priv_table h ! i) \<noteq> k \<Longrightarrow>
   find_loop k out h i n = find_loop k out h (Suc i) n"
  by (subst find_loop.simps) simp

lemma find_loop_first:
  assumes "i \<le> j" "j < n" "j < length (priv_table h)"
    and "\<forall>m. i \<le> m \<and> m < j \<longrightarrow> key (priv_table h ! m) \<noteq> k"
    and "key (priv_table h ! j) = k"
  shows "find_loop k out h i n =
     Inr (h\<lparr>priv_stat := (priv_stat h)\<lparr>search_ok := search_ok (priv_stat h) + 1\<rparr>\<rparr>,
          data (priv_table h ! j), 1)"
  using assms
proof (induction m \<equiv> "j - i" arbitrary: i)
  case 0
  then have "i = j" by simp
  with 0 show ?case by (simp add: find_loop_hit)
next
  case (Suc m)
  then have lt: "i < j" by simp
  with Suc.prems have "key (priv_table h ! i) \<noteq> k" by auto
  with lt Suc.prems have "find_loop k out h i n = find_loop k out h (Suc i) n"
    by (intro find_loop_skip) auto
  moreover have "find_loop k out h (Suc i) n =
     Inr (h\<lparr>priv_stat := (priv_stat h)\<lparr>search_ok := search_ok (priv_stat h) + 1\<rparr>\<rparr>,
          data (priv_table h ! j), 1)"
    using Suc.hyps(2) lt Suc.prems by (intro Suc.hyps(1)) auto
  ultimately show ?case by simp
qed

lemma find_loop_none:
  assumes "n \<le> length (priv_table h)"
    and "\<forall>m. i \<le> m \<and> m < n \<longrightarrow> key (priv_table h ! m) \<noteq> k"
  shows "find_loop k out h i n =
     Inr (h\<lparr>priv_stat := (priv_stat h)\<lparr>search_err := search_err (priv_stat h) + 1\<rparr>\<rparr>, out, 0)"
  using assms
proof (induction m \<equiv> "n - i" arbitrary: i)
  case 0
  then show ?case by (simp add: find_loop_stop)
next
  case (Suc m)
  then have lt: "i < n" by simp
  with Suc.prems have "key (priv_table h ! i) \<noteq> k" by auto
  with lt Suc.prems have "find_loop k out h i n = find_loop k out h (Suc i) n"
    by (intro find_loop_skip) auto
  moreover have "find_loop k out h (Suc i) n =
     Inr (h\<lparr>priv_stat := (priv_stat h)\<lparr>search_err := search_err (priv_stat h) + 1\<rparr>\<rparr>, out, 0)"
    using Suc.hyps(2) lt Suc.prems by (intro Suc.hyps(1)) auto
  ultimately show ?case by simp
qed

lemma find_loop_total:
  "n \<le> length (priv_table h) \<Longrightarrow> \<exists>r. find_loop k out h i n = Inr r"
proof (induction m \<equiv> "n - i" arbitrary: i)
  case 0
  then show ?case by (simp add: find_loop_stop)
next
  case (Suc m)
  then have lt: "i < n" "i < length (priv_table h)" by simp_all
  show ?case
  proof (cases "key (priv_table h ! i) = k")
    case True
    with lt show ?thesis by (simp add: find_loop_hit)
  next
    case False
    with lt have "find_loop k out h i n = find_loop k out h (Suc i) n"
      by (intro find_loop_skip)
    moreover have "\<exists>r. find_loop k out h (Suc i) n = Inr r"
      using Suc.hyps(2) Suc.prems by (intro Suc.hyps(1)) auto
    ultimately show ?thesis by simp
  qed
qed

subsection \<open>The loop of remove\<close>

lemma remove_loop_stop:
  "\<not> i < n \<Longrightarrow> remove_loop d k out h i n =
     Inr (h\<lparr>priv_stat := (priv_stat h)\<lparr>remove_err := remove_err (priv_stat h) + 1\<rparr>\<rparr>, out, 0)"
  by (subst remove_loop.simps) simp

lemma remove_loop_fault:
  "i < n \<Longrightarrow> \<not> i < length (priv_table h) \<Longrightarrow> remove_loop d k out h i n = Inl Invalid_access"
  by (subst remove_loop.simps) simp

lemma slot_update_commute:
  "(r :: 'v slot_t)\<lparr>data := a, key := b\<rparr> = r\<lparr>key := b, data := a\<rparr>"
  by (cases r) simp

lemma remove_loop_hit:
  "i < n \<Longrightarrow> i < length (priv_table h) \<Longrightarrow> key (priv_table h ! i) = k \<Longrightarrow>
   remove_loop d k out h i n =
     Inr (h\<lparr>priv_table := (priv_table h)
              [i := (priv_table h ! i)\<lparr>key := illegal_key d, data := illegal_data d\<rparr>]\<rparr>,
          removed_out out (data (priv_table h ! i)), 1)"
  by (subst remove_loop.simps)
    (simp add: set_key_def set_data_def removed_out_def slot_update_commute)

lemma remove_loop_skip:
  "i < n \<Longrightarrow> i < length (priv_table h) \<Longrightarrow> key (priv_table h ! i) \<noteq> k \<Longrightarrow>
   remove_loop d k out h i n = remove_loop d k out h (Suc i) n"
  by (subst remove_loop.simps) simp

lemma remove_loop_first:
  assumes "i \<le> j" "j < n" "j < length (priv_table h)"
    and "\<forall>m. i \<le> m \<and> m < j \<longrightarrow> key (priv_table h ! m) \<noteq> k"
    and "key (priv_table h ! j) = k"
  shows "remove_loop d k out h i n =
     Inr (h\<lparr>priv_table := (priv_table h)
              [j := (priv_table h ! j)\<lparr>key := illegal_key d, data := illegal_data d\<rparr>]\<rparr>,
          removed_out out (data (priv_table h ! j)), 1)"
  using assms
proof (induction m \<equiv> "j - i" arbitrary: i)
  case 0
  then have "i = j" by simp
  with 0 show ?case by (simp add: remove_loop_hit)
next
  case (Suc m)
  then have lt: "i < j" by simp
  with Suc.prems have "key (priv_table h ! i) \<noteq> k" by auto
  with lt Suc.prems have "remove_loop d k out h i n = remove_loop d k out h (Suc i) n"
    by (intro remove_loop_skip) auto
  moreover have "remove_loop d k out h (Suc i) n =
     Inr (h\<lparr>priv_table := (priv_table h)
              [j := (priv_table h ! j)\<lparr>key := illegal_key d, data := illegal_data d\<rparr>]\<rparr>,
          removed_out out (data (priv_table h ! j)), 1)"
    using Suc.hyps(2) lt Suc.prems by (intro Suc.hyps(1)) auto
  ultimately show ?case by simp
qed

lemma remove_loop_failure:
  "remove_loop d k out h i n = Inr (h', out', 0) \<Longrightarrow>
     priv_table h' = priv_table h \<and> out' = out"
proof (induction m \<equiv> "n - i" arbitrary: i)
  case 0
  then show ?case by (auto simp: remove_loop_stop)
next
  case (Suc m)
  then have lt: "i < n" by simp
  show ?case
  proof (cases "i < length (priv_table h)")
    case False
    with lt Suc.prems show ?thesis by (simp add: remove_loop_fault)
  next
    case inb: True
    show ?thesis
    proof (cases "key (priv_table h ! i) = k")
      case True
      with lt inb Suc.prems show ?thesis by (simp add: remove_loop_hit)
    next
      case False
      with lt inb Suc.prems have "remove_loop d k out h (Suc i) n = Inr (h', out', 0)"
        by (simp add: remove_loop_skip)
      moreover from Suc.hyps(2) have "m = n - Suc i" by simp
      ultimately show ?thesis using Suc.hyps(1) [of "Suc i"] by simp
    qed
  qed
qed

lemma remove_loop_total:
  "n \<le> length (priv_table h) \<Longrightarrow> \<exists>r. remove_loop d k out h i n = Inr r"
proof (induction m \<equiv> "n - i" arbitrary: i)
  case 0
  then show ?case by (simp add: remove_loop_stop)
next
  case (Suc m)
  then have lt: "i < n" "i < length (priv_table h)" by simp_all
  show ?case
  proof (cases "key (priv_table h ! i) = k")
    case True
    with lt show ?thesis by (simp add: remove_loop_hit)
  next
    case False
    with lt have "remove_loop d k out h i n = remove_loop d k out h (Suc i) n"
      by (intro remove_loop_skip)
    moreover have "\<exists>r. remove_loop d k out h (Suc i) n = Inr r"
      using Suc.hyps(2) Suc.prems by (intro Suc.hyps(1)) auto
    ultimately show ?thesis by simp
  qed
qed

lemma insert_loop_total:
  "n \<le> length (priv_table h) \<Longrightarrow> \<exists>r. insert_loop d k v h i n = Inr r"
proof (induction m \<equiv> "n - i" arbitrary: i h)
  case 0
  then show ?case by (simp add: insert_loop_stop)
next
  case (Suc m)
  show ?case
  proof (cases rule: insert_loop_cases [where i = i and n = n and h = h and d = d and k = k])
    case stop
    then show ?thesis by (simp add: insert_loop_stop)
  next
    case fault
    with Suc.prems show ?thesis by simp
  next
    case claim
    then show ?thesis by (simp add: insert_loop_claim)
  next
    case over
    then show ?thesis by (simp add: insert_loop_overwrite)
  next
    case coll
    then have "insert_loop d k v h i n = insert_loop d k v (bump_collision h) (Suc i) n"
      by (intro insert_loop_collision)
    moreover have "\<exists>r. insert_loop d k v (bump_collision h) (Suc i) n = Inr r"
      using Suc.hyps(2) Suc.prems by (intro Suc.hyps(1)) auto
    ultimately show ?thesis by simp
  qed
qed

section \<open>Index arithmetic\<close>

lemma shl1_eq: "shl1 n = 2 ^ n"
  by (simp add: shl1_def)

lemma get_index_less:
  assumes "priv_size h = of_nat (shl1 (bits h))" "bits h \<le> 30"
  shows "unat (hashtable_get_index h x) < shl1 (bits h)"
proof -
  have "priv_size h - 1 = mask (bits h)"
    using assms by (simp add: shl1_eq mask_eq_exp_minus_1)
  then have "hashtable_get_index h x = take_bit (bits h) (ucast x)"
    by (simp add: hashtable_get_index_def take_bit_eq_mask)
  then have "unat (hashtable_get_index h x) = take_bit (bits h) (unat x)"
    using assms(2) by (simp add: unsigned_take_bit_eq unsigned_ucast_eq)
  also have "\<dots> < 2 ^ bits h"
    by (rule take_bit_nat_less_exp)
  finally show ?thesis by (simp add: shl1_eq)
qed

lemma probe_index_unat:
  assumes "priv_size h = of_nat (shl1 (bits h))" "bits h \<le> 30"
  shows "unat (probe_index h hf k) = unat (hashtable_get_index h (hf k))"
proof -
  have "(2::nat) ^ bits h \<le> 2 ^ 30"
    using assms(2) by (intro power_increasing) simp_all
  then have "unat (hashtable_get_index h (hf k)) < 2 ^ 32"
    using get_index_less [OF assms, of "hf k"] by (simp add: shl1_eq)
  then show ?thesis
    by (simp add: probe_index_def unsigned_ucast_eq take_bit_nat_eq_self)
qed

lemma probe_index_less:
  assumes "priv_size h = of_nat (shl1 (bits h))" "bits h \<le> 30"
  shows "unat (probe_index h hf k) < shl1 (bits h)"
  using get_index_less [OF assms, of "hf k"] probe_index_unat [OF assms, of hf k] by simp

lemma probe_index_max_le: "unat (probe_index_max d i) \<le> unat i + max_tries d"
proof -
  have "unat (probe_index_max d i) = (unat i + unat (of_nat (max_tries d) :: 32 word)) mod 2 ^ 32"
    by (simp add: probe_index_max_def unat_word_ariths)
  also have "\<dots> \<le> unat i + unat (of_nat (max_tries d) :: 32 word)"
    by simp
  also have "unat (of_nat (max_tries d) :: 32 word) \<le> max_tries d"
    by (simp add: unat_of_nat)
  finally show ?thesis by simp
qed

lemma table_ok_window:
  assumes "table_ok d h"
  shows "unat (probe_index_max d (probe_index h hf k)) \<le> length (priv_table h)"
proof -
  from assms have "unat (probe_index h hf k) < shl1 (bits h)"
    by (intro probe_index_less) (simp_all add: table_ok_def)
  moreover have "unat (probe_index_max d (probe_index h hf k))
      \<le> unat (probe_index h hf k) + max_tries d"
    by (rule probe_index_max_le)
  ultimately show ?thesis using assms by (simp add: table_ok_def)
qed

section \<open>Construction\<close>

lemma hashtable_init_slot_free: "hashtable_init_slot d s = free_slot d"
  by (cases s) (simp add: hashtable_init_slot_def free_slot_def)

lemma init_loop_result:
  "i \<le> n \<Longrightarrow> n \<le> length tbl \<Longrightarrow>
     init_loop d tbl i n = Inr (take i tbl @ replicate (n - i) (free_slot d) @ drop n tbl)"
proof (induction m \<equiv> "n - i" arbitrary: i tbl)
  case 0
  then show ?case by (subst init_loop.simps) simp
next
  case (Suc m)
  then have lt: "i < n" "i < length tbl" by simp_all
  let ?t = "tbl[i := free_slot d]"
  have step: "init_loop d tbl i n = init_loop d ?t (Suc i) n"
    using lt by (subst init_loop.simps) (simp add: hashtable_init_slot_free)
  have rest: "init_loop d ?t (Suc i) n =
      Inr (take (Suc i) ?t @ replicate (n - Suc i) (free_slot d) @ drop n ?t)"
    using Suc.hyps(2) Suc.prems lt by (intro Suc.hyps(1)) auto
  have head_part: "take (Suc i) ?t = take i tbl @ [free_slot d]"
    using lt by (simp add: take_Suc_conv_app_nth)
  have tail_part: "drop n ?t = drop n tbl"
    using lt by simp
  have mid: "replicate (n - i) (free_slot d) = free_slot d # replicate (n - Suc i) (free_slot d)"
    using lt by (simp add: Suc_diff_Suc flip: replicate_Suc)
  show ?case by (simp add: step rest head_part tail_part mid)
qed

lemma decl_in_range_slots:
  assumes "decl_in_range d n"
  shows "unat (hashtable_memory_size d n) div slot_bytes d = shl1 n + max_tries d"
    and "unat (of_nat (shl1 n) + of_nat (max_tries d) :: 64 word) = shl1 n + max_tries d"
proof -
  from assms have s: "shl1 n + max_tries d < 2 ^ 31" and b: "0 < slot_bytes d" "slot_bytes d < 2 ^ 32"
    by (simp_all add: decl_in_range_def)
  have "slot_bytes d * (shl1 n + max_tries d) < 2 ^ 32 * 2 ^ 31"
    using s b by (intro mult_strict_mono) simp_all
  then have "slot_bytes d * (shl1 n + max_tries d) < 2 ^ 64" by simp
  then have "unat (of_nat (slot_bytes d * (shl1 n + max_tries d)) :: 64 word)
      = slot_bytes d * (shl1 n + max_tries d)"
    by (simp only: unat_of_nat) (simp add: take_bit_nat_eq_self)
  moreover have "hashtable_memory_size d n = of_nat (slot_bytes d * (shl1 n + max_tries d))"
    by (simp add: hashtable_memory_size_def)
  ultimately have "unat (hashtable_memory_size d n) = slot_bytes d * (shl1 n + max_tries d)"
    by (simp only:)
  with b show "unat (hashtable_memory_size d n) div slot_bytes d = shl1 n + max_tries d"
    by simp
  have "of_nat (shl1 n) + of_nat (max_tries d) = (of_nat (shl1 n + max_tries d) :: 64 word)"
    by simp
  moreover from s have "shl1 n + max_tries d < 2 ^ 64" by simp
  ultimately show "unat (of_nat (shl1 n) + of_nat (max_tries d) :: 64 word) = shl1 n + max_tries d"
    by (simp only: unat_of_nat) (simp add: take_bit_nat_eq_self)
qed

lemma hashtable_init_avail:
  assumes "decl_in_range d (bits h)" "avail a"
  shows "hashtable_init d a h =
     Inr (h\<lparr>hashfunction := Some (case hashfunction h of None \<Rightarrow> hash32shift | Some f \<Rightarrow> f),
            priv_size := of_nat (shl1 (bits h)),
            priv_memory_size := hashtable_memory_size d (bits h),
            priv_table := replicate (shl1 (bits h) + max_tries d) (free_slot d)\<rparr>, 1)"
proof -
  let ?n = "shl1 (bits h) + max_tries d"
  let ?mem = "map (junk a) [0 ..< ?n]"
  have alloc: "hashtable_alloc a d (hashtable_memory_size d (bits h)) = Some ?mem"
    using assms by (simp add: hashtable_alloc_def decl_in_range_slots(1))
  have loop: "init_loop d ?mem 0 ?n = Inr (replicate ?n (free_slot d))"
    using init_loop_result [of 0 ?n ?mem d] by simp
  show ?thesis
    using assms(1)
    by (cases "hashfunction h")
      (simp_all add: hashtable_init_def Let_def alloc decl_in_range_slots(2) loop)
qed

lemma hashtable_init_unavail:
  "\<not> avail a \<Longrightarrow> hashtable_init d a h = Inr (h, 0)"
  by (simp add: hashtable_init_def hashtable_alloc_def)

lemma hashtable_init_table_ok:
  assumes "decl_in_range d (bits h)" "hashtable_init d a h = Inr (h', 1)"
  shows "table_ok d h' \<and> bits h' = bits h \<and>
    priv_table h' = replicate (shl1 (bits h) + max_tries d) (free_slot d)"
proof (cases "avail a")
  case True
  from hashtable_init_avail [OF assms(1) True] assms(2)
  have "h' = h\<lparr>hashfunction := Some (case hashfunction h of None \<Rightarrow> hash32shift | Some f \<Rightarrow> f),
            priv_size := of_nat (shl1 (bits h)),
            priv_memory_size := hashtable_memory_size d (bits h),
            priv_table := replicate (shl1 (bits h) + max_tries d) (free_slot d)\<rparr>"
    by simp
  with assms(1) show ?thesis by (simp add: table_ok_def decl_in_range_def)
next
  case False
  with assms(2) show ?thesis by (simp add: hashtable_init_unavail)
qed

section \<open>Insert, find and remove on a table\<close>

lemma hashtable_insert_Some:
  "hashfunction h = Some hf \<Longrightarrow>
   hashtable_insert d h k v =
     insert_loop d k v
       (h\<lparr>priv_stat := (priv_stat h)\<lparr>insert_cnt := insert_cnt (priv_stat h) + 1\<rparr>\<rparr>)
       (unat (probe_index h hf k)) (unat (probe_index_max d (probe_index h hf k)))"
  by (simp add: hashtable_insert_def Let_def)

lemma hashtable_find_Some:
  "hashfunction h = Some hf \<Longrightarrow>
   hashtable_find d h k out =
     find_loop k out
       (h\<lparr>priv_stat := (priv_stat h)\<lparr>search_cnt := search_cnt (priv_stat h) + 1\<rparr>\<rparr>)
       (unat (probe_index h hf k)) (unat (probe_index_max d (probe_index h hf k)))"
  by (simp add: hashtable_find_def Let_def)

lemma hashtable_remove_Some:
  "hashfunction h = Some hf \<Longrightarrow>
   hashtable_remove d h k out =
     remove_loop d k out
       (h\<lparr>priv_stat := (priv_stat h)\<lparr>remove_cnt := remove_cnt (priv_stat h) + 1\<rparr>\<rparr>)
       (unat (probe_index h hf k)) (unat (probe_index_max d (probe_index h hf k)))"
  by (simp add: hashtable_remove_def Let_def)

lemma hashtable_insert_None: "hashfunction h = None \<Longrightarrow> hashtable_insert d h k v = Inl Invalid_access"
  by (simp add: hashtable_insert_def)

lemma hashtable_remove_None: "hashfunction h = None \<Longrightarrow> hashtable_remove d h k out = Inl Invalid_access"
  by (simp add: hashtable_remove_def)

lemma hashtable_find_None: "hashfunction h = None \<Longrightarrow> hashtable_find d h k out = Inl Invalid_access"
  by (simp add: hashtable_find_def)

lemma probe_index_cong:
  "priv_size h' = priv_size h \<Longrightarrow> probe_index h' hf k = probe_index h hf k"
  by (simp add: probe_index_def hashtable_get_index_def)

text \<open>
  C7. A failed operation leaves the slot array as it was: when insert returns 0 the
  slots of the table are unchanged, and when remove returns 0 the slots are unchanged
  (and so is the caller's \<^verbatim>\<open>*data\<close>).
\<close>

theorem failed_operations_keep_slots:
  "(hashtable_insert d h k v = Inr (h1, 0) \<longrightarrow> priv_table h1 = priv_table h) \<and>
   (hashtable_remove d h k out = Inr (h2, out', 0) \<longrightarrow>
      priv_table h2 = priv_table h \<and> out' = out)"
proof (cases "hashfunction h")
  case None
  then show ?thesis by (simp add: hashtable_insert_None hashtable_remove_None)
next
  case (Some hf)
  show ?thesis
  proof (intro conjI impI)
    assume "hashtable_insert d h k v = Inr (h1, 0)"
    then show "priv_table h1 = priv_table h"
      using Some by (auto simp: hashtable_insert_Some dest: insert_loop_failure)
  next
    assume r: "hashtable_remove d h k out = Inr (h2, out', 0)"
    then show "priv_table h2 = priv_table h"
      using Some by (auto simp: hashtable_remove_Some dest: remove_loop_failure)
  next
    assume r: "hashtable_remove d h k out = Inr (h2, out', 0)"
    then show "out' = out"
      using Some by (auto simp: hashtable_remove_Some dest: remove_loop_failure)
  qed
qed

text \<open>
  C2, as the code has it. Every call of insert that returns adds one to the
  \<open>insert\<close> counter, whatever it returns, and it returns 1 or 0. When it returns 1
  the \<open>insert_err\<close> counter is unchanged. When it returns 0 (the window is exhausted)
  \<open>insert_err\<close> has grown by one and \<open>collision\<close> by one for each slot of the
  window, and no other counter but \<open>insert\<close> has changed.
\<close>

theorem insert_counts_every_call:
  assumes "hashtable_insert d h k v = Inr (h', rc)"
  shows "insert_cnt (priv_stat h') = insert_cnt (priv_stat h) + 1 \<and> (rc = 1 \<or> rc = 0) \<and>
    (rc = 1 \<longrightarrow> insert_err (priv_stat h') = insert_err (priv_stat h)) \<and>
    (rc = 0 \<longrightarrow> priv_stat h' = (priv_stat h)
       \<lparr>insert_cnt := insert_cnt (priv_stat h) + 1,
        collision := collision (priv_stat h) + of_nat (length (probe_window d h k)),
        insert_err := insert_err (priv_stat h) + 1\<rparr>)"
proof -
  from assms obtain hf where hf: "hashfunction h = Some hf"
    by (cases "hashfunction h") (simp_all add: hashtable_insert_None)
  let ?h = "h\<lparr>priv_stat := (priv_stat h)\<lparr>insert_cnt := insert_cnt (priv_stat h) + 1\<rparr>\<rparr>"
  let ?i = "unat (probe_index h hf k)"
  let ?n = "unat (probe_index_max d (probe_index h hf k))"
  from assms hf have loop: "insert_loop d k v ?h ?i ?n = Inr (h', rc)"
    by (simp add: hashtable_insert_Some)
  have len: "length (probe_window d h k) = ?n - ?i"
    using hf by (simp add: probe_window_def Let_def)
  from insert_loop_counters [OF loop]
  have c: "insert_cnt (priv_stat h') = insert_cnt (priv_stat h) + 1"
    "rc = 1 \<longrightarrow> insert_err (priv_stat h') = insert_err (priv_stat h)"
    by simp_all
  from insert_loop_frame [OF loop] have rc: "rc = 1 \<or> rc = 0" by auto
  have "rc = 0 \<longrightarrow> priv_stat h' = (priv_stat h)
       \<lparr>insert_cnt := insert_cnt (priv_stat h) + 1,
        collision := collision (priv_stat h) + of_nat (length (probe_window d h k)),
        insert_err := insert_err (priv_stat h) + 1\<rparr>"
    using insert_loop_failure [of d k v ?h ?i ?n h'] loop len by auto
  with c rc show ?thesis by blast
qed

lemma find_loop_after_insert_loop:
  assumes loop: "insert_loop d k v h i n = Inr (h1, 1)"
    and same: "priv_table g = priv_table h1"
  shows "find_loop k out g i n =
     Inr (g\<lparr>priv_stat := (priv_stat g)\<lparr>search_ok := search_ok (priv_stat g) + 1\<rparr>\<rparr>, v, 1)"
proof -
  let ?T = "priv_table h"
  from insert_loop_success [OF loop] obtain j where j: "i \<le> j" "j < n" "j < length ?T"
    "\<forall>m. i \<le> m \<and> m < j \<longrightarrow> key (?T ! m) \<noteq> illegal_key d \<and> key (?T ! m) \<noteq> k"
    "priv_table h1 = ?T[j := (?T ! j)\<lparr>key := k, data := v\<rparr>]"
    by auto
  have "find_loop k out g i n =
     Inr (g\<lparr>priv_stat := (priv_stat g)\<lparr>search_ok := search_ok (priv_stat g) + 1\<rparr>\<rparr>,
          data (priv_table g ! j), 1)"
    using j same by (intro find_loop_first) auto
  moreover have "data (priv_table g ! j) = v"
    using j same by simp
  ultimately show ?thesis by simp
qed

text \<open>
  C5, as the code has it. For every key and value, when insert returns 1, a find of
  the same key that follows it returns 1 and the value just inserted, and leaves the
  slots as they are.
\<close>

theorem insert_then_find:
  assumes "hashtable_insert d h k v = Inr (h1, 1)"
  shows "\<exists>h2. hashtable_find d h1 k out = Inr (h2, v, 1) \<and> priv_table h2 = priv_table h1"
proof (cases "hashfunction h")
  case None
  with assms show ?thesis by (simp add: hashtable_insert_None)
next
  case (Some hf)
  let ?h = "h\<lparr>priv_stat := (priv_stat h)\<lparr>insert_cnt := insert_cnt (priv_stat h) + 1\<rparr>\<rparr>"
  let ?i = "unat (probe_index h hf k)"
  let ?n = "unat (probe_index_max d (probe_index h hf k))"
  from assms Some have loop: "insert_loop d k v ?h ?i ?n = Inr (h1, 1)"
    by (simp add: hashtable_insert_Some)
  from insert_loop_frame [OF loop]
  have fr: "hashfunction h1 = Some hf" "priv_size h1 = priv_size h"
    using Some by simp_all
  let ?g = "h1\<lparr>priv_stat := (priv_stat h1)\<lparr>search_cnt := search_cnt (priv_stat h1) + 1\<rparr>\<rparr>"
  have "hashtable_find d h1 k out = find_loop k out ?g ?i ?n"
    using fr probe_index_cong [of h1 h hf k] by (simp add: hashtable_find_Some)
  also have "\<dots> =
     Inr (?g\<lparr>priv_stat := (priv_stat ?g)\<lparr>search_ok := search_ok (priv_stat ?g) + 1\<rparr>\<rparr>, v, 1)"
    using loop by (rule find_loop_after_insert_loop) simp
  finally show ?thesis by simp
qed

section \<open>Windows and the slots of a key\<close>

lemma filter_upt_first:
  "filter P [i ..< n] = j # js \<Longrightarrow>
     i \<le> j \<and> j < n \<and> P j \<and> (\<forall>m. i \<le> m \<and> m < j \<longrightarrow> \<not> P m)"
proof (induction m \<equiv> "n - i" arbitrary: i)
  case 0
  then show ?case by simp
next
  case (Suc m)
  then have lt: "i < n" by simp
  then have upt: "[i ..< n] = i # [Suc i ..< n]" by (rule upt_conv_Cons)
  show ?case
  proof (cases "P i")
    case True
    with Suc.prems upt have "j = i" by simp
    with True lt show ?thesis by auto
  next
    case False
    with Suc.prems upt have "filter P [Suc i ..< n] = j # js" by simp
    moreover from Suc.hyps(2) have "m = n - Suc i" by simp
    ultimately have ih: "Suc i \<le> j \<and> j < n \<and> P j \<and> (\<forall>m. Suc i \<le> m \<and> m < j \<longrightarrow> \<not> P m)"
      by (rule Suc.hyps(1) [rotated])
    have "\<forall>m. i \<le> m \<and> m < j \<longrightarrow> \<not> P m"
    proof (intro allI impI)
      fix m assume "i \<le> m \<and> m < j"
      then consider "m = i" | "Suc i \<le> m \<and> m < j" by linarith
      then show "\<not> P m" using False ih by cases auto
    qed
    with ih show ?thesis by auto
  qed
qed

lemma filter_single:
  assumes "distinct xs" "length (filter P xs) \<le> 1" "a \<in> set xs" "b \<in> set xs" "P a" "P b"
  shows "a = b"
proof (rule ccontr)
  assume ne: "a \<noteq> b"
  have "{a, b} \<subseteq> set (filter P xs)" using assms by simp
  then have "card {a, b} \<le> card (set (filter P xs))"
    by (intro card_mono) simp_all
  also have "\<dots> = length (filter P xs)"
    using assms(1) by (intro distinct_card) simp
  finally have "card {a, b} \<le> 1" using assms(2) by simp
  with ne show False by simp
qed

lemma slot_key_same: "key r = a \<Longrightarrow> (r :: 'v slot_t)\<lparr>key := a, data := v\<rparr> = r\<lparr>data := v\<rparr>"
  by (cases r) simp

lemma find_loop_frame:
  "find_loop k out h i n = Inr (h', out', rc) \<Longrightarrow>
     name h' = name h \<and> bits h' = bits h \<and> hashfunction h' = hashfunction h \<and>
     priv_size h' = priv_size h \<and> priv_memory_size h' = priv_memory_size h \<and>
     priv_table h' = priv_table h"
proof (induction m \<equiv> "n - i" arbitrary: i)
  case 0
  then show ?case by (auto simp: find_loop_stop)
next
  case (Suc m)
  then have lt: "i < n" by simp
  show ?case
  proof (cases "i < length (priv_table h)")
    case False
    with lt Suc.prems show ?thesis by (simp add: find_loop_fault)
  next
    case inb: True
    show ?thesis
    proof (cases "key (priv_table h ! i) = k")
      case True
      with lt inb Suc.prems show ?thesis by (auto simp: find_loop_hit)
    next
      case False
      with lt inb Suc.prems have "find_loop k out h (Suc i) n = Inr (h', out', rc)"
        by (simp add: find_loop_skip)
      moreover from Suc.hyps(2) have "m = n - Suc i" by simp
      ultimately show ?thesis using Suc.hyps(1) [of "Suc i"] by simp
    qed
  qed
qed

lemma remove_loop_frame:
  "remove_loop d k out h i n = Inr (h', out', rc) \<Longrightarrow>
     name h' = name h \<and> bits h' = bits h \<and> hashfunction h' = hashfunction h \<and>
     priv_size h' = priv_size h \<and> priv_memory_size h' = priv_memory_size h \<and>
     length (priv_table h') = length (priv_table h)"
proof (induction m \<equiv> "n - i" arbitrary: i)
  case 0
  then show ?case by (auto simp: remove_loop_stop)
next
  case (Suc m)
  then have lt: "i < n" by simp
  show ?case
  proof (cases "i < length (priv_table h)")
    case False
    with lt Suc.prems show ?thesis by (simp add: remove_loop_fault)
  next
    case inb: True
    show ?thesis
    proof (cases "key (priv_table h ! i) = k")
      case True
      with lt inb Suc.prems show ?thesis by (auto simp: remove_loop_hit)
    next
      case False
      with lt inb Suc.prems have "remove_loop d k out h (Suc i) n = Inr (h', out', rc)"
        by (simp add: remove_loop_skip)
      moreover from Suc.hyps(2) have "m = n - Suc i" by simp
      ultimately show ?thesis using Suc.hyps(1) [of "Suc i"] by simp
    qed
  qed
qed

lemma key_slots_Some:
  "hashfunction h = Some hf \<Longrightarrow>
   key_slots d h k =
     filter (\<lambda>j. j < length (priv_table h) \<and> key (priv_table h ! j) = k)
       [unat (probe_index h hf k) ..< unat (probe_index_max d (probe_index h hf k))]"
  by (simp add: key_slots_def probe_window_def Let_def)

text \<open>
  C4, as the code has it. On a table as init sets it up, for a key other than
  \<open>illegal_key\<close>: when insert returns 1 and, after it, the key is in no more than one
  slot of its probe window, a remove of the key returns 1 and hands back the inserted
  value, and a find of the key after that returns 0, leaving \<^verbatim>\<open>*data\<close> alone.
\<close>

theorem insert_remove_find:
  assumes ok: "table_ok d h" and ne: "k \<noteq> illegal_key d"
    and ins: "hashtable_insert d h k v = Inr (h1, 1)"
    and once: "length (key_slots d h1 k) \<le> 1"
  shows "\<exists>h2. hashtable_remove d h1 k (Some out) = Inr (h2, Some v, 1) \<and>
     (\<exists>h3. hashtable_find d h2 k out' = Inr (h3, out', 0))"
proof -
  from ok obtain hf where hf: "hashfunction h = Some hf"
    by (auto simp: table_ok_def)
  let ?h = "h\<lparr>priv_stat := (priv_stat h)\<lparr>insert_cnt := insert_cnt (priv_stat h) + 1\<rparr>\<rparr>"
  let ?i = "unat (probe_index h hf k)"
  let ?n = "unat (probe_index_max d (probe_index h hf k))"
  let ?T = "priv_table h"
  let ?T1 = "priv_table h1"
  from ins hf have loop: "insert_loop d k v ?h ?i ?n = Inr (h1, 1)"
    by (simp add: hashtable_insert_Some)
  from insert_loop_frame [OF loop]
  have fr1: "hashfunction h1 = Some hf" "priv_size h1 = priv_size h" "length ?T1 = length ?T"
    using hf by simp_all
  have pi1: "probe_index h1 hf k = probe_index h hf k"
    using fr1 by (intro probe_index_cong)
  from insert_loop_success [OF loop] obtain j where j: "?i \<le> j" "j < ?n" "j < length ?T"
    "\<forall>m. ?i \<le> m \<and> m < j \<longrightarrow> key (?T ! m) \<noteq> illegal_key d \<and> key (?T ! m) \<noteq> k"
    "?T1 = ?T[j := (?T ! j)\<lparr>key := k, data := v\<rparr>]"
    by auto
  have kj: "key (?T1 ! j) = k" "data (?T1 ! j) = v"
    using j by simp_all
  have before: "\<forall>m. ?i \<le> m \<and> m < j \<longrightarrow> key (?T1 ! m) \<noteq> k"
    using j by auto
  let ?h1 = "h1\<lparr>priv_stat := (priv_stat h1)\<lparr>remove_cnt := remove_cnt (priv_stat h1) + 1\<rparr>\<rparr>"
  let ?h2 = "?h1\<lparr>priv_table := ?T1[j := (?T1 ! j)\<lparr>key := illegal_key d, data := illegal_data d\<rparr>]\<rparr>"
  have "remove_loop d k (Some out) ?h1 ?i ?n =
      Inr (?h1\<lparr>priv_table := (priv_table ?h1)
              [j := (priv_table ?h1 ! j)\<lparr>key := illegal_key d, data := illegal_data d\<rparr>]\<rparr>,
          removed_out (Some out) (data (priv_table ?h1 ! j)), 1)"
    using j fr1 kj before by (intro remove_loop_first) auto
  then have rem: "hashtable_remove d h1 k (Some out) = Inr (?h2, Some v, 1)"
    using fr1 pi1 kj by (simp add: hashtable_remove_Some removed_out_def)
  have fr2: "hashfunction ?h2 = Some hf" "priv_size ?h2 = priv_size h"
    using fr1 by simp_all
  have pi2: "probe_index ?h2 hf k = probe_index h hf k"
    using fr2 by (intro probe_index_cong)
  let ?T2 = "priv_table ?h2"
  have len2: "length ?T2 = length ?T" using fr1 by simp
  have win: "?n \<le> length ?T" using ok by (rule table_ok_window)
  have slots1: "key_slots d h1 k =
      filter (\<lambda>m. m < length ?T1 \<and> key (?T1 ! m) = k) [?i ..< ?n]"
    using fr1 pi1 by (simp add: key_slots_Some)
  have none: "\<forall>m. ?i \<le> m \<and> m < ?n \<longrightarrow> key (?T2 ! m) \<noteq> k"
  proof (intro allI impI)
    fix m assume m: "?i \<le> m \<and> m < ?n"
    show "key (?T2 ! m) \<noteq> k"
    proof (cases "m = j")
      case True
      with j fr1 ne show ?thesis by simp
    next
      case False
      have "key (?T1 ! m) \<noteq> k"
      proof
        assume eq: "key (?T1 ! m) = k"
        have "m = j"
        proof (rule filter_single [where xs = "[?i ..< ?n]"
              and P = "\<lambda>m. m < length ?T1 \<and> key (?T1 ! m) = k"])
          show "distinct [?i ..< ?n]" by simp
          show "length (filter (\<lambda>m. m < length ?T1 \<and> key (?T1 ! m) = k) [?i ..< ?n]) \<le> 1"
            using once slots1 by simp
          show "m \<in> set [?i ..< ?n]" using m by simp
          show "j \<in> set [?i ..< ?n]" using j by simp
          show "m < length ?T1 \<and> key (?T1 ! m) = k" using m win fr1 eq by simp
          show "j < length ?T1 \<and> key (?T1 ! j) = k" using j fr1 kj by simp
        qed
        with False show False by simp
      qed
      with False show ?thesis by simp
    qed
  qed
  let ?h2f = "?h2\<lparr>priv_stat := (priv_stat ?h2)\<lparr>search_cnt := search_cnt (priv_stat ?h2) + 1\<rparr>\<rparr>"
  have "find_loop k out' ?h2f ?i ?n =
     Inr (?h2f\<lparr>priv_stat := (priv_stat ?h2f)\<lparr>search_err := search_err (priv_stat ?h2f) + 1\<rparr>\<rparr>,
          out', 0)"
    using win len2 none by (intro find_loop_none) simp_all
  moreover have "hashtable_find d ?h2 k out' = find_loop k out' ?h2f ?i ?n"
    using fr2 pi2 by (simp add: hashtable_find_Some)
  ultimately have "\<exists>h3. hashtable_find d ?h2 k out' = Inr (h3, out', 0)" by simp
  with rem show ?thesis by blast
qed

text \<open>
  C10. When insert is called with \<open>illegal_key\<close> as the key and a slot of the probe
  window is free, with \<open>j\<close> the first such slot: insert returns 1, the only change to
  the slots is that the data of slot \<open>j\<close> is now the supplied value, the key of slot
  \<open>j\<close> is still \<open>illegal_key\<close>, and a find of \<open>illegal_key\<close> after it returns 1
  with that value.
\<close>

theorem insert_illegal_key:
  assumes "key_slots d h (illegal_key d) = j # js"
  shows "\<exists>h1. hashtable_insert d h (illegal_key d) v = Inr (h1, 1) \<and>
     priv_table h1 = (priv_table h)[j := (priv_table h ! j)\<lparr>data := v\<rparr>] \<and>
     key (priv_table h1 ! j) = illegal_key d \<and>
     (\<exists>h2. hashtable_find d h1 (illegal_key d) out = Inr (h2, v, 1))"
proof -
  let ?k = "illegal_key d"
  from assms obtain hf where hf: "hashfunction h = Some hf"
    by (cases "hashfunction h") (simp_all add: key_slots_def probe_window_def)
  let ?h = "h\<lparr>priv_stat := (priv_stat h)\<lparr>insert_cnt := insert_cnt (priv_stat h) + 1\<rparr>\<rparr>"
  let ?i = "unat (probe_index h hf ?k)"
  let ?n = "unat (probe_index_max d (probe_index h hf ?k))"
  let ?T = "priv_table h"
  let ?P = "\<lambda>m. m < length ?T \<and> key (?T ! m) = ?k"
  from assms hf have "filter ?P [?i ..< ?n] = j # js"
    by (simp add: key_slots_Some)
  from filter_upt_first [OF this]
  have j: "?i \<le> j" "j < ?n" "j < length ?T" "key (?T ! j) = ?k"
    and first: "\<forall>m. ?i \<le> m \<and> m < j \<longrightarrow> \<not> ?P m"
    by auto
  have before: "\<forall>m. ?i \<le> m \<and> m < j \<longrightarrow>
      key (priv_table ?h ! m) \<noteq> ?k \<and> key (priv_table ?h ! m) \<noteq> ?k"
    using first j(3) by auto
  have "\<exists>h1. insert_loop d ?k v ?h ?i ?n = Inr (h1, 1) \<and>
     priv_table h1 = (priv_table ?h)[j := (priv_table ?h ! j)\<lparr>key := ?k, data := v\<rparr>]"
    using j before by (intro insert_loop_first) simp_all
  then obtain h1 where loop: "insert_loop d ?k v ?h ?i ?n = Inr (h1, 1)"
    and h1: "priv_table h1 = ?T[j := (?T ! j)\<lparr>key := ?k, data := v\<rparr>]"
    by auto
  from loop hf have ins: "hashtable_insert d h ?k v = Inr (h1, 1)"
    by (simp add: hashtable_insert_Some)
  from h1 j have tbl: "priv_table h1 = ?T[j := (?T ! j)\<lparr>data := v\<rparr>]"
    by (simp add: slot_key_same)
  with j have kj: "key (priv_table h1 ! j) = ?k" by simp
  from insert_loop_frame [OF loop]
  have fr: "hashfunction h1 = Some hf" "priv_size h1 = priv_size h"
    using hf by simp_all
  let ?g = "h1\<lparr>priv_stat := (priv_stat h1)\<lparr>search_cnt := search_cnt (priv_stat h1) + 1\<rparr>\<rparr>"
  have "hashtable_find d h1 ?k out = find_loop ?k out ?g ?i ?n"
    using fr probe_index_cong [of h1 h hf ?k] by (simp add: hashtable_find_Some)
  also have "\<dots> =
     Inr (?g\<lparr>priv_stat := (priv_stat ?g)\<lparr>search_ok := search_ok (priv_stat ?g) + 1\<rparr>\<rparr>, v, 1)"
    using loop by (rule find_loop_after_insert_loop) simp
  finally have "\<exists>h2. hashtable_find d h1 ?k out = Inr (h2, v, 1)" by simp
  with ins tbl kj show ?thesis by blast
qed

section \<open>Runs stay inside the slot array\<close>

lemma table_ok_insert:
  assumes "table_ok d h"
  shows "\<exists>h' rc. hashtable_insert d h k v = Inr (h', rc) \<and> table_ok d h' \<and> bits h' = bits h"
proof -
  from assms obtain hf where hf: "hashfunction h = Some hf"
    by (auto simp: table_ok_def)
  let ?h = "h\<lparr>priv_stat := (priv_stat h)\<lparr>insert_cnt := insert_cnt (priv_stat h) + 1\<rparr>\<rparr>"
  let ?i = "unat (probe_index h hf k)"
  let ?n = "unat (probe_index_max d (probe_index h hf k))"
  have "?n \<le> length (priv_table ?h)"
    using table_ok_window [OF assms, of hf k] by simp
  then obtain h' rc where r: "insert_loop d k v ?h ?i ?n = Inr (h', rc)"
    using insert_loop_total [of ?n ?h d k v ?i] by auto
  from insert_loop_frame [OF r] assms have "table_ok d h' \<and> bits h' = bits h"
    by (simp add: table_ok_def)
  with r hf show ?thesis by (simp add: hashtable_insert_Some)
qed

lemma table_ok_remove:
  assumes "table_ok d h"
  shows "\<exists>h' out' rc. hashtable_remove d h k out = Inr (h', out', rc) \<and>
    table_ok d h' \<and> bits h' = bits h"
proof -
  from assms obtain hf where hf: "hashfunction h = Some hf"
    by (auto simp: table_ok_def)
  let ?h = "h\<lparr>priv_stat := (priv_stat h)\<lparr>remove_cnt := remove_cnt (priv_stat h) + 1\<rparr>\<rparr>"
  let ?i = "unat (probe_index h hf k)"
  let ?n = "unat (probe_index_max d (probe_index h hf k))"
  have "?n \<le> length (priv_table ?h)"
    using table_ok_window [OF assms, of hf k] by simp
  then obtain h' out' rc where r: "remove_loop d k out ?h ?i ?n = Inr (h', out', rc)"
    using remove_loop_total [of ?n ?h d k out ?i] by auto
  from remove_loop_frame [OF r] assms have "table_ok d h' \<and> bits h' = bits h"
    by (simp add: table_ok_def)
  with r hf show ?thesis by (simp add: hashtable_remove_Some)
qed

lemma table_ok_find:
  assumes "table_ok d h"
  shows "\<exists>h' out' rc. hashtable_find d h k out = Inr (h', out', rc) \<and>
    table_ok d h' \<and> bits h' = bits h"
proof -
  from assms obtain hf where hf: "hashfunction h = Some hf"
    by (auto simp: table_ok_def)
  let ?h = "h\<lparr>priv_stat := (priv_stat h)\<lparr>search_cnt := search_cnt (priv_stat h) + 1\<rparr>\<rparr>"
  let ?i = "unat (probe_index h hf k)"
  let ?n = "unat (probe_index_max d (probe_index h hf k))"
  have "?n \<le> length (priv_table ?h)"
    using table_ok_window [OF assms, of hf k] by simp
  then obtain h' out' rc where r: "find_loop k out ?h ?i ?n = Inr (h', out', rc)"
    using find_loop_total [of ?n ?h k out ?i] by auto
  from find_loop_frame [OF r] assms have "table_ok d h' \<and> bits h' = bits h"
    by (simp add: table_ok_def)
  with r hf show ?thesis by (simp add: hashtable_find_Some)
qed

lemma table_ok_init:
  assumes "table_ok d h" "decl_in_range d (bits h)"
  shows "\<exists>h' rc. hashtable_init d a h = Inr (h', rc) \<and> table_ok d h' \<and> bits h' = bits h"
proof (cases "avail a")
  case True
  from hashtable_init_avail [OF assms(2) True] assms show ?thesis
    by (simp add: table_ok_def)
next
  case False
  with assms show ?thesis by (simp add: hashtable_init_unavail)
qed

lemma table_ok_step:
  assumes "table_ok d h" "decl_in_range d (bits h)"
  shows "\<exists>h' r. call_step d h c = Inr (h', r) \<and> table_ok d h' \<and> bits h' = bits h"
proof (cases c)
  case (Init a)
  with table_ok_init [OF assms, of a] show ?thesis by auto
next
  case (Insert k v)
  with table_ok_insert [OF assms(1), of k v] show ?thesis by auto
next
  case (Remove k out)
  with table_ok_remove [OF assms(1), of k out] show ?thesis by auto
next
  case (Find k out)
  with table_ok_find [OF assms(1), of k out] show ?thesis by auto
qed

lemma table_ok_run:
  "table_ok d h \<Longrightarrow> decl_in_range d (bits h) \<Longrightarrow>
     \<exists>h' rs. run d h cs = Inr (h', rs) \<and> table_ok d h' \<and> bits h' = bits h"
proof (induction cs arbitrary: h)
  case Nil
  then show ?case by simp
next
  case (Cons c cs)
  from table_ok_step [OF Cons.prems, of c] obtain h1 r where
    s: "call_step d h c = Inr (h1, r)" "table_ok d h1" "bits h1 = bits h"
    by auto
  with Cons.prems have "decl_in_range d (bits h1)" by simp
  from Cons.IH [OF s(2) this] obtain h' rs where
    "run d h1 cs = Inr (h', rs)" "table_ok d h'" "bits h' = bits h1"
    by auto
  with s show ?case by simp
qed

lemma probe_window_bounds:
  assumes "table_ok d h"
  shows "length (probe_window d h k) \<le> max_tries d \<and>
    (\<forall>j \<in> set (probe_window d h k). j < length (priv_table h))"
proof -
  from assms obtain hf where hf: "hashfunction h = Some hf"
    by (auto simp: table_ok_def)
  have "unat (probe_index_max d (probe_index h hf k)) \<le> unat (probe_index h hf k) + max_tries d"
    by (rule probe_index_max_le)
  moreover have "unat (probe_index_max d (probe_index h hf k)) \<le> length (priv_table h)"
    using assms by (rule table_ok_window)
  ultimately show ?thesis using hf by (auto simp: probe_window_def Let_def)
qed

text \<open>
  C8. Take a table that init has set up (it returned 1) with \<open>bits\<close> and the
  declaration in the range where the C arithmetic of init is defined. Then any
  sequence of calls runs without an access outside the slot array, and in every state
  \<open>h'\<close> such a run reaches: the array still has \<open>(1 << bits) + max_tries\<close> slots, the
  probe window of every key has at most \<open>max_tries\<close> positions, all of them inside
  the array, its first position is the \<^verbatim>\<open>size_t\<close> index \<open>hash & (__size - 1)\<close>, below
  \<open>1 << bits\<close>, and insert, find and remove of any key return without a fault.
\<close>

theorem probes_stay_in_bounds:
  assumes "decl_in_range d (bits h0)" and "hashtable_init d a h0 = Inr (h, 1)"
  shows "(\<exists>r. run d h cs = Inr r) \<and>
    (\<forall>h' rs. run d h cs = Inr (h', rs) \<longrightarrow>
       length (priv_table h') = shl1 (bits h0) + max_tries d \<and>
       length (probe_window d h' k) \<le> max_tries d \<and>
       (\<forall>j \<in> set (probe_window d h' k). j < shl1 (bits h0) + max_tries d) \<and>
       (\<forall>hf. hashfunction h' = Some hf \<longrightarrow>
          unat (hashtable_get_index h' (hf k)) < shl1 (bits h0) \<and>
          probe_window d h' k = [unat (hashtable_get_index h' (hf k)) ..<
             unat (probe_index_max d (probe_index h' hf k))]) \<and>
       (\<exists>r. hashtable_insert d h' k v = Inr r) \<and>
       (\<exists>r. hashtable_find d h' k out = Inr r) \<and>
       (\<exists>r. hashtable_remove d h' k out' = Inr r))"
proof -
  from hashtable_init_table_ok [OF assms]
  have ok: "table_ok d h" and b: "bits h = bits h0" by simp_all
  with assms(1) have rng: "decl_in_range d (bits h)" by simp
  from table_ok_run [OF ok rng, of cs] obtain h1 rs1 where
    run1: "run d h cs = Inr (h1, rs1)" "table_ok d h1" "bits h1 = bits h"
    by auto
  have "length (priv_table h1) = shl1 (bits h0) + max_tries d"
    using run1 b by (simp add: table_ok_def)
  moreover have "length (probe_window d h1 k) \<le> max_tries d"
    "\<forall>j \<in> set (probe_window d h1 k). j < length (priv_table h1)"
    using probe_window_bounds [OF run1(2), of k] by simp_all
  moreover have "\<forall>hf. hashfunction h1 = Some hf \<longrightarrow>
          unat (hashtable_get_index h1 (hf k)) < shl1 (bits h0) \<and>
          probe_window d h1 k = [unat (hashtable_get_index h1 (hf k)) ..<
             unat (probe_index_max d (probe_index h1 hf k))]"
  proof (intro allI impI)
    fix hf assume hf: "hashfunction h1 = Some hf"
    have "unat (probe_index h1 hf k) < shl1 (bits h1)"
      using run1(2) by (intro probe_index_less) (simp_all add: table_ok_def)
    moreover have "unat (probe_index h1 hf k) = unat (hashtable_get_index h1 (hf k))"
      using run1(2) by (intro probe_index_unat) (simp_all add: table_ok_def)
    ultimately show "unat (hashtable_get_index h1 (hf k)) < shl1 (bits h0) \<and>
          probe_window d h1 k = [unat (hashtable_get_index h1 (hf k)) ..<
             unat (probe_index_max d (probe_index h1 hf k))]"
      using hf run1(3) b by (simp add: probe_window_def Let_def)
  qed
  moreover have "\<exists>r. hashtable_insert d h1 k v = Inr r"
    using table_ok_insert [OF run1(2), of k v] by auto
  moreover have "\<exists>r. hashtable_find d h1 k out = Inr r"
    using table_ok_find [OF run1(2), of k out] by auto
  moreover have "\<exists>r. hashtable_remove d h1 k out' = Inr r"
    using table_ok_remove [OF run1(2), of k out'] by auto
  ultimately show ?thesis using run1(1) by simp
qed

text \<open>
  C9. When init returns 1, with \<open>bits\<close> and the declaration in the range where its C
  arithmetic is defined, the slot array has exactly \<open>(1 << bits) + max_tries\<close> slots and
  each of them has the key \<open>illegal_key\<close> and the data \<open>illegal_data\<close>.
\<close>

theorem init_all_slots_free:
  assumes "decl_in_range d (bits h0)" and "hashtable_init d a h0 = Inr (h, 1)"
  shows "length (priv_table h) = shl1 (bits h0) + max_tries d \<and>
    priv_table h = replicate (shl1 (bits h0) + max_tries d)
      \<lparr>key = illegal_key d, data = illegal_data d\<rparr>"
  using hashtable_init_table_ok [OF assms] by (simp add: free_slot_def)

section \<open>The test table\<close>

lemma replicate_260: "replicate 260 x = x # x # x # x # replicate 256 x"
proof -
  have "(260::nat) = Suc (Suc (Suc (Suc 256)))" by simp
  then show ?thesis by (simp only: replicate_Suc)
qed

lemma replicate_259: "replicate 259 x = x # x # x # replicate 256 x"
proof -
  have "(259::nat) = Suc (Suc (Suc 256))" by simp
  then show ?thesis by (simp only: replicate_Suc)
qed

lemma uint32_decl_in_range: "decl_in_range uint32_decl (bits hashtable)"
  by (simp add: decl_in_range_def uint32_decl_def shl1_def hashtable_def)

lemma init_fresh: "hashtable_init uint32_decl zeroed hashtable = Inr (table_fresh, 1)"
proof -
  have "avail zeroed" by (simp add: zeroed_def)
  with uint32_decl_in_range show ?thesis
    by (simp add: hashtable_init_avail)
      (simp add: hashtable_def uint32_decl_def shl1_def hashtable_memory_size_def
        free_slot_def table_fresh_def)
qed

lemmas table_defs = hashtable_def table_fresh_def table_one_def table_chain_def
  stat_zero_def uint32_decl_def replicate_260 replicate_259

lemmas call_defs = hashtable_insert_def hashtable_find_def hashtable_remove_def
  probe_index_def probe_index_max_def hashtable_get_index_def hash_none_def Let_def
  insert_loop.simps find_loop.simps remove_loop.simps cmpxchg_def set_key_def set_data_def

text \<open>
  C3. On the test table (\<open>bits\<close> 8, \<open>max_tries\<close> 4, \<open>hash_none\<close>, \<open>illegal_key\<close> 0),
  after init, the inserts of the keys 256, 512, 768 and 1024 all return 1 and leave the
  keys in the slots 0, 1, 2 and 3 with their data, the other 256 slots free; the insert
  of key 1280 after them returns 0, changes no slot and adds one to \<open>insert_err\<close>.
\<close>

theorem four_inserts_fill_window:
  "run uint32_decl hashtable
     [Init zeroed, Insert 256 v1, Insert 512 v2, Insert 768 v3, Insert 1024 v4] =
   Inr (table_fresh\<lparr>priv_stat := stat_zero\<lparr>insert_cnt := 4, collision := 6\<rparr>,
          priv_table := [\<lparr>key = 256, data = v1\<rparr>, \<lparr>key = 512, data = v2\<rparr>,
            \<lparr>key = 768, data = v3\<rparr>, \<lparr>key = 1024, data = v4\<rparr>]
            @ replicate 256 \<lparr>key = 0, data = 0\<rparr>\<rparr>,
        [(1, None), (1, None), (1, None), (1, None), (1, None)]) \<and>
   run uint32_decl hashtable
     [Init zeroed, Insert 256 v1, Insert 512 v2, Insert 768 v3, Insert 1024 v4,
      Insert 1280 v5] =
   Inr (table_fresh\<lparr>priv_stat := stat_zero\<lparr>insert_cnt := 5, collision := 10, insert_err := 1\<rparr>,
          priv_table := [\<lparr>key = 256, data = v1\<rparr>, \<lparr>key = 512, data = v2\<rparr>,
            \<lparr>key = 768, data = v3\<rparr>, \<lparr>key = 1024, data = v4\<rparr>]
            @ replicate 256 \<lparr>key = 0, data = 0\<rparr>\<rparr>,
        [(1, None), (1, None), (1, None), (1, None), (1, None), (0, None)])"
  by (simp add: init_fresh) (simp add: table_defs call_defs)

lemma replicate_258: "replicate 258 x = x # x # replicate 256 x"
proof -
  have "(258::nat) = Suc (Suc 256)" by simp
  then show ?thesis by (simp only: replicate_Suc)
qed

lemma upt_0_4: "[0 ..< 4 :: nat] = [0, 1, 2, 3]"
  by (simp add: upt_rec)

lemma upt_255_259: "[255 ..< 259 :: nat] = [255, 256, 257, 258]"
  by (simp add: upt_rec)

lemmas more_table_defs = table_full_def table_dup_def replicate_258

lemma chain_reached:
  "run uint32_decl hashtable
     [Init zeroed, Insert 256 256, Insert 512 512, Insert 768 768, Insert 1024 1024] =
   Inr (table_chain, [(1, None), (1, None), (1, None), (1, None), (1, None)])"
  by (simp add: init_fresh) (simp add: table_defs call_defs)

lemma insert_one: "hashtable_insert uint32_decl table_fresh 256 256 = Inr (table_one, 1)"
  by (simp add: table_defs call_defs)

lemma insert_full: "hashtable_insert uint32_decl table_chain 1280 1280 = Inr (table_full, 0)"
  by (simp add: table_defs more_table_defs call_defs)

lemma table_fresh_ok: "table_ok uint32_decl table_fresh"
  by (simp add: table_ok_def table_defs shl1_def)

text \<open>
  C1 fails on the code. On the test table: insert 256, insert 512 (it collides with
  256 and takes slot 1), remove 256 (slot 0 is free again), insert 512 once more. The
  compare-and-swap of the second insert of 512 succeeds on the free slot 0 before the
  loop reaches slot 1, so the key 512 is now in the slots 0 and 1 of its probe window.
\<close>

theorem reinsert_duplicates_key:
  "run uint32_decl hashtable
     [Init zeroed, Insert 256 256, Insert 512 512, Remove 256 None, Insert 512 7] =
   Inr (table_dup, [(1, None), (1, None), (1, None), (1, None), (1, None)]) \<and>
   key_slots uint32_decl table_dup 512 = [0, 1] \<and>
   priv_table table_dup ! 0 = \<lparr>key = 512, data = 7\<rparr> \<and>
   priv_table table_dup ! 1 = \<lparr>key = 512, data = 512\<rparr>"
proof -
  have "run uint32_decl hashtable
     [Init zeroed, Insert 256 256, Insert 512 512, Remove 256 None, Insert 512 7] =
   Inr (table_dup, [(1, None), (1, None), (1, None), (1, None), (1, None)])"
    by (simp add: init_fresh) (simp add: table_defs more_table_defs call_defs)
  moreover have "key_slots uint32_decl table_dup 512 = [0, 1]"
    by (simp add: key_slots_def probe_window_def table_defs more_table_defs call_defs upt_0_4)
  moreover have "priv_table table_dup ! 0 = \<lparr>key = 512, data = 7\<rparr>"
    "priv_table table_dup ! 1 = \<lparr>key = 512, data = 512\<rparr>"
    by (simp_all add: table_defs more_table_defs)
  ultimately show ?thesis by simp
qed

section \<open>Instances and counterexamples on the test table\<close>

text \<open>
  C2 as stated fails: the failing insert of key 1280 into the full window moves the
  \<open>insert\<close> counter from 4 to 5, and \<open>collision\<close> from 6 to 10.
\<close>

theorem insert_failure_counts_counterexample:
  "run uint32_decl hashtable
     [Init zeroed, Insert 256 256, Insert 512 512, Insert 768 768, Insert 1024 1024] =
   Inr (table_chain, [(1, None), (1, None), (1, None), (1, None), (1, None)]) \<and>
   hashtable_insert uint32_decl table_chain 1280 1280 = Inr (table_full, 0) \<and>
   insert_cnt (priv_stat table_chain) = 4 \<and> insert_cnt (priv_stat table_full) = 5 \<and>
   collision (priv_stat table_chain) = 6 \<and> collision (priv_stat table_full) = 10"
  using chain_reached insert_full by (simp add: table_defs more_table_defs)

theorem insert_counts_every_call_witness:
  "hashtable_insert uint32_decl table_chain 1280 1280 = Inr (table_full, 0) \<and>
   insert_cnt (priv_stat table_full) = insert_cnt (priv_stat table_chain) + 1 \<and>
   priv_stat table_full = (priv_stat table_chain)
     \<lparr>insert_cnt := insert_cnt (priv_stat table_chain) + 1,
      collision := collision (priv_stat table_chain)
        + of_nat (length (probe_window uint32_decl table_chain 1280)),
      insert_err := insert_err (priv_stat table_chain) + 1\<rparr> \<and>
   hashtable_insert uint32_decl table_fresh 256 256 = Inr (table_one, 1) \<and>
   insert_cnt (priv_stat table_one) = insert_cnt (priv_stat table_fresh) + 1 \<and>
   insert_err (priv_stat table_one) = insert_err (priv_stat table_fresh)"
  using insert_counts_every_call [OF insert_full] insert_counts_every_call [OF insert_one]
    insert_full insert_one
  by simp

text \<open>
  C4 as stated fails, in two ways. With the window of key 1280 full, insert returns 0
  and so does the remove after it. And after insert 256, insert 512, remove 256, the
  sequence insert 512 (data 7), remove 512, find 512 ends with a find that returns 1
  and the old data 512: the remove cleared slot 0 and slot 1 still holds the key.
\<close>

theorem insert_remove_find_counterexample:
  "map_sum id snd (run uint32_decl hashtable
     [Init zeroed, Insert 256 256, Insert 512 512, Insert 768 768, Insert 1024 1024,
      Insert 1280 1280, Remove 1280 (Some 0)]) =
   Inr [(1, None), (1, None), (1, None), (1, None), (1, None), (0, None), (0, Some 0)] \<and>
   map_sum id snd (run uint32_decl hashtable
     [Init zeroed, Insert 256 256, Insert 512 512, Remove 256 None,
      Insert 512 7, Remove 512 (Some 0), Find 512 0]) =
   Inr [(1, None), (1, None), (1, None), (1, None), (1, None), (1, Some 7), (1, Some 512)]"
  by (simp add: init_fresh) (simp add: table_defs call_defs)

theorem insert_remove_find_witness:
  "table_ok uint32_decl table_fresh \<and> 256 \<noteq> illegal_key uint32_decl \<and>
   hashtable_insert uint32_decl table_fresh 256 256 = Inr (table_one, 1) \<and>
   length (key_slots uint32_decl table_one 256) \<le> 1 \<and>
   (\<exists>h2. hashtable_remove uint32_decl table_one 256 (Some 0) = Inr (h2, Some 256, 1) \<and>
     (\<exists>h3. hashtable_find uint32_decl h2 256 0 = Inr (h3, 0, 0)))"
proof -
  have ne: "256 \<noteq> illegal_key uint32_decl"
    by (simp add: uint32_decl_def)
  have once: "length (key_slots uint32_decl table_one 256) \<le> 1"
    by (simp add: key_slots_def probe_window_def table_defs call_defs upt_0_4)
  from insert_remove_find [OF table_fresh_ok ne insert_one once, of 0 0]
  show ?thesis using table_fresh_ok ne insert_one once by simp
qed

text \<open>
  C5 as stated fails: with the window of key 1280 full, insert returns 0 and the find
  after it returns 0.
\<close>

theorem insert_then_find_counterexample:
  "map_sum id snd (run uint32_decl hashtable
     [Init zeroed, Insert 256 256, Insert 512 512, Insert 768 768, Insert 1024 1024,
      Insert 1280 1280, Find 1280 0]) =
   Inr [(1, None), (1, None), (1, None), (1, None), (1, None), (0, None), (0, Some 0)]"
  by (simp add: init_fresh) (simp add: table_defs call_defs)

theorem insert_then_find_witness:
  "hashtable_insert uint32_decl table_fresh 256 256 = Inr (table_one, 1) \<and>
   (\<exists>h2. hashtable_find uint32_decl table_one 256 0 = Inr (h2, 256, 1) \<and>
      priv_table h2 = priv_table table_one)"
  using insert_then_find [OF insert_one, of 0] insert_one by simp

theorem failed_operations_keep_slots_witness:
  "hashtable_insert uint32_decl table_chain 1280 1280 = Inr (table_full, 0) \<and>
   priv_table table_full = priv_table table_chain \<and>
   hashtable_remove uint32_decl table_chain 1280 (Some 5) =
     Inr (table_chain\<lparr>priv_stat := stat_zero
            \<lparr>insert_cnt := 4, remove_cnt := 1, collision := 6, remove_err := 1\<rparr>\<rparr>, Some 5, 0) \<and>
   priv_table (table_chain\<lparr>priv_stat := stat_zero
            \<lparr>insert_cnt := 4, remove_cnt := 1, collision := 6, remove_err := 1\<rparr>\<rparr>)
     = priv_table table_chain"
proof -
  have r: "hashtable_remove uint32_decl table_chain 1280 (Some 5) =
     Inr (table_chain\<lparr>priv_stat := stat_zero
            \<lparr>insert_cnt := 4, remove_cnt := 1, collision := 6, remove_err := 1\<rparr>\<rparr>, Some 5, 0)"
    by (simp add: table_defs call_defs)
  from failed_operations_keep_slots [of uint32_decl table_chain 1280 1280 table_full
      "Some 5" "table_chain\<lparr>priv_stat := stat_zero
            \<lparr>insert_cnt := 4, remove_cnt := 1, collision := 6, remove_err := 1\<rparr>\<rparr>" "Some 5"]
  show ?thesis using insert_full r by simp
qed

theorem probes_stay_in_bounds_witness:
  "decl_in_range uint32_decl (bits hashtable) \<and>
   hashtable_init uint32_decl zeroed hashtable = Inr (table_fresh, 1) \<and>
   run uint32_decl table_fresh [Insert 256 256] = Inr (table_one, [(1, None)]) \<and>
   length (priv_table table_one) = 260 \<and>
   probe_window uint32_decl table_one 4294967295 = [255, 256, 257, 258] \<and>
   unat (hashtable_get_index table_one (hash_none 4294967295)) = 255 \<and>
   (\<exists>r. hashtable_insert uint32_decl table_one 4294967295 1 = Inr r) \<and>
   (\<exists>r. hashtable_find uint32_decl table_one 4294967295 0 = Inr r) \<and>
   (\<exists>r. hashtable_remove uint32_decl table_one 4294967295 None = Inr r)"
proof -
  have run1: "run uint32_decl table_fresh [Insert 256 256] = Inr (table_one, [(1, None)])"
    by (simp add: insert_one)
  have win: "probe_window uint32_decl table_one 4294967295 = [255, 256, 257, 258]"
    by (simp add: probe_window_def table_defs call_defs upt_255_259)
  have idx: "unat (hashtable_get_index table_one (hash_none 4294967295)) = 255"
    by (simp add: table_defs call_defs)
  have len: "length (priv_table table_one) = 260"
    by (simp add: table_defs)
  from probes_stay_in_bounds [OF uint32_decl_in_range init_fresh,
      of "[Insert 256 256]" 4294967295 1 0 None]
  show ?thesis using uint32_decl_in_range init_fresh run1 win idx len by simp
qed

theorem init_all_slots_free_witness:
  "decl_in_range uint32_decl (bits hashtable) \<and>
   hashtable_init uint32_decl zeroed hashtable = Inr (table_fresh, 1) \<and>
   length (priv_table table_fresh) = 260 \<and>
   priv_table table_fresh = replicate 260 \<lparr>key = 0, data = 0\<rparr>"
  using init_all_slots_free [OF uint32_decl_in_range init_fresh]
    uint32_decl_in_range init_fresh
  by (simp add: table_fresh_def)

theorem insert_illegal_key_witness:
  "key_slots uint32_decl table_one 0 = 1 # [2, 3] \<and>
   (\<exists>h1. hashtable_insert uint32_decl table_one 0 7 = Inr (h1, 1) \<and>
      priv_table h1 = (priv_table table_one)[1 := (priv_table table_one ! 1)\<lparr>data := 7\<rparr>] \<and>
      key (priv_table h1 ! 1) = 0 \<and>
      (\<exists>h2. hashtable_find uint32_decl h1 0 5 = Inr (h2, 7, 1)))"
proof -
  have ik: "illegal_key uint32_decl = 0" by (simp add: uint32_decl_def)
  have ks: "key_slots uint32_decl table_one (illegal_key uint32_decl) = 1 # [2, 3]"
    by (simp add: key_slots_def probe_window_def table_defs call_defs upt_0_4)
  from insert_illegal_key [OF ks, of 7 5]
  show ?thesis using ks by (simp only: ik)
qed

end
